theory Spec2Isabelle
  imports Complex_Main "HOL-Library.Sublist"
begin

section \<open>Python values shared by the three modules\<close>

text \<open>
  The development embeds \<^verbatim>\<open>ooda/ingest/upload.py\<close>, \<^verbatim>\<open>ooda/ingest/stream.py\<close> and
  the two worker loops of \<^verbatim>\<open>ooda/cameras/pi_zero_w/pi_camera.py\<close>.

  A path is the string \<^verbatim>\<open>str(path)\<close>. An exception is known by its class only as far as
  the handlers of the source tell classes apart: \<^verbatim>\<open>except Exception\<close> catches the
  instances of \<^verbatim>\<open>Exception\<close> (here \<open>Exc\<close> with a message) and lets
  \<^verbatim>\<open>KeyboardInterrupt\<close> and \<^verbatim>\<open>SystemExit\<close> pass, which derive from
  \<^verbatim>\<open>BaseException\<close> alone; \<^verbatim>\<open>except KeyboardInterrupt\<close> catches the second.
\<close>

type_synonym path = string

datatype py_exc = Exc string | KeyboardInterrupt | SystemExit

fun is_Exception :: "py_exc \<Rightarrow> bool" where
  "is_Exception (Exc m) = True"
| "is_Exception KeyboardInterrupt = False"
| "is_Exception SystemExit = False"

text \<open>
  How a block of statements is left: it runs to its end, it raises, or it is still
  waiting for something the given observations of the environment do not hold.
\<close>

datatype flow = Normal | Raise py_exc | Blocked

text \<open>How a whole loop or function ends, as far as the given observations reach.\<close>

datatype ending = Ended | Died py_exc | Unfinished

subsection \<open>File names\<close>

record datetime =
  year :: nat
  month :: nat
  day :: nat
  hour :: nat
  minute :: nat
  second :: nat

text \<open>
  The ranges Python's \<^verbatim>\<open>datetime\<close> type enforces, with the years from 1000 on: for an
  earlier year \<^verbatim>\<open>%Y\<close> does not give four digits on every platform.
\<close>

definition valid_datetime :: "datetime \<Rightarrow> bool" where
  "valid_datetime d \<longleftrightarrow>
     1000 \<le> year d \<and> year d \<le> 9999 \<and> 1 \<le> month d \<and> month d \<le> 12 \<and>
     1 \<le> day d \<and> day d \<le> 31 \<and> hour d < 24 \<and> minute d < 60 \<and> second d < 60"

definition digit :: "nat \<Rightarrow> char" where
  "digit n = ''0123456789'' ! (n mod 10)"

fun decimal :: "nat \<Rightarrow> string" where
  "decimal n = (if n < 10 then [digit n] else decimal (n div 10) @ [digit n])"

declare decimal.simps [simp del]

text \<open>Zero padding to a minimal width, as \<^verbatim>\<open>%02d\<close> and \<^verbatim>\<open>:04d\<close> do.\<close>

definition zfill :: "nat \<Rightarrow> string \<Rightarrow> string" where
  "zfill w s = replicate (w - length s) CHR ''0'' @ s"

text \<open>\<^verbatim>\<open>strftime("%Y%m%d_%H%M%S")\<close>\<close>

definition strftime :: "datetime \<Rightarrow> string" where
  "strftime d =
     zfill 4 (decimal (year d)) @ zfill 2 (decimal (month d)) @ zfill 2 (decimal (day d)) @
     ''_'' @
     zfill 2 (decimal (hour d)) @ zfill 2 (decimal (minute d)) @ zfill 2 (decimal (second d))"

text \<open>
  \<^verbatim>\<open>directory / name\<close> of pathlib, where \<open>dir\<close> is \<^verbatim>\<open>str(directory)\<close>, the form in which
  pathlib keeps a path: \<^verbatim>\<open>.\<close> for the current directory, which the joined path drops,
  a slash at the end for a root only, and no slash at the end otherwise (\<^verbatim>\<open>videos/\<close> is
  kept as \<^verbatim>\<open>videos\<close>); the empty string stands for the current directory too.
  \<open>name\<close> is one relative component. Then the last component
  of a path: \<^verbatim>\<open>Path.name\<close> and \<^verbatim>\<open>os.path.basename\<close>, which agree on a path that does
  not end with a slash.
\<close>

definition path_join :: "path \<Rightarrow> string \<Rightarrow> path" where
  "path_join dir name =
     (if dir = [] \<or> dir = ''.'' then name
      else if last dir = CHR ''/'' then dir @ name
      else dir @ ''/'' @ name)"

definition path_name :: "path \<Rightarrow> string" where
  "path_name p = rev (takeWhile (\<lambda>c. c \<noteq> CHR ''/'') (rev p))"

text \<open>pi\_camera.py, lines 34 and 110--111: the file of one chunk of the camera.\<close>

definition VIDEO_FORMAT :: string where
  "VIDEO_FORMAT = ''h264''"

definition capture_filepath :: "path \<Rightarrow> datetime \<Rightarrow> path" where
  "capture_filepath storage_path d =
     path_join storage_path (''video_'' @ strftime d @ ''.'' @ VIDEO_FORMAT)"

text \<open>pi\_camera.py, line 183: the key of a chunk in the bucket.\<close>

definition s3_key_of :: "string \<Rightarrow> path \<Rightarrow> string" where
  "s3_key_of pre filepath = pre @ path_name filepath"

text \<open>stream.py, lines 15 and 47--48: the file of chunk number \<open>n\<close> of the stream.\<close>

definition temp_dir :: path where
  "temp_dir = ''/tmp/video_chunks''"

definition chunk_filename :: "datetime \<Rightarrow> nat \<Rightarrow> path" where
  "chunk_filename d n =
     path_join temp_dir (''chunk_'' @ strftime d @ ''_'' @ zfill 4 (decimal n) @ ''.mp4'')"

text \<open>upload.py, lines 8--9: the key \<^verbatim>\<open>upload_to_s3\<close> derives from the local file.\<close>

definition chunk_key :: "path \<Rightarrow> string" where
  "chunk_key local_file = ''video_chunks/'' @ path_name local_file"

section \<open>The world outside the program, and what the program does to it\<close>

text \<open>
  The local disk is the set of the paths that exist (the content of a file is not
  modelled), the queue is \<^verbatim>\<open>self.video_queue\<close>, a FIFO list of paths, and the bucket
  is the list of the objects stored so far, as (bucket, key) pairs in the order of their
  upload.
\<close>

record world =
  disk :: "path set"
  video_queue :: "path list"
  s3_objects :: "(string \<times> string) list"

text \<open>
  The messages the program logs or prints, and the calls it makes on the camera, the
  encoder, the video writer, the queue, the storage client and the file system, in the
  order in which it makes them.
\<close>

datatype message =
    StartingChunk path
  | FinishedChunk path
  | CaptureError py_exc
  | RestartFailed py_exc
  | CaptureLoopEnded
  | StartingUpload nat
  | SkippingMissing path
  | Uploading path string string
  | UploadedAndRemoved path
  | FailedToUpload string py_exc
  | UploadLoopEnded
  | Uploaded string string string

datatype event =
    Log message
  | Sleep real
  | EncoderStart path
  | EncoderStop path
  | CameraConfigure
  | CameraStart
  | CameraStop
  | QueuePut path
  | S3Stored path string string
  | S3Raised path string string py_exc
  | OsRemoved path
  | WriterOpened path
  | WriterReleased path
  | CapReleased

text \<open>
  The storage client is known by what \<^verbatim>\<open>upload_file\<close> does for each local file: it
  returns, or it raises. A file that is not on the disk cannot be read, so its upload
  raises whatever the client is.
\<close>

type_synonym s3_client = "path \<Rightarrow> py_exc option"

definition upload_file :: "s3_client \<Rightarrow> path \<Rightarrow> string \<Rightarrow> string \<Rightarrow> world \<Rightarrow> py_exc + world" where
  "upload_file client local_file bucket key w =
     (if local_file \<notin> disk w then Inl (Exc ''FileNotFoundError'')
      else case client local_file of
             Some e \<Rightarrow> Inl e
           | None \<Rightarrow> Inr (w\<lparr>s3_objects := s3_objects w @ [(bucket, key)]\<rparr>))"

text \<open>\<^verbatim>\<open>os.remove\<close> raises when there is no such file.\<close>

definition os_remove :: "path \<Rightarrow> world \<Rightarrow> py_exc + world" where
  "os_remove p w =
     (if p \<in> disk w then Inr (w\<lparr>disk := disk w - {p}\<rparr>) else Inl (Exc ''FileNotFoundError''))"

section \<open>upload.py\<close>

text \<open>
  \<^verbatim>\<open>upload_to_s3(local_file, s3_client, bucket_name)\<close>: the call of the client in a
  \<^verbatim>\<open>try\<close> whose handler \<^verbatim>\<open>except Exception\<close> prints and returns. The callers pass a
  path.
\<close>

definition upload_to_s3 :: "path \<Rightarrow> s3_client \<Rightarrow> string \<Rightarrow> world \<Rightarrow> event list \<times> world \<times> flow" where
  "upload_to_s3 local_file client bucket_name w =
     (let filename = path_name local_file;
          s3_key = chunk_key local_file
      in case upload_file client local_file bucket_name s3_key w of
           Inr w' \<Rightarrow>
             ([S3Stored local_file bucket_name s3_key, Log (Uploaded filename bucket_name s3_key)],
              w', Normal)
         | Inl e \<Rightarrow>
             if is_Exception e
             then ([S3Raised local_file bucket_name s3_key e, Log (FailedToUpload filename e)],
                   w, Normal)
             else ([S3Raised local_file bucket_name s3_key e], w, Raise e))"

section \<open>pi\_camera.py: the upload worker\<close>

text \<open>
  \<^verbatim>\<open>self.s3_bucket\<close> and \<^verbatim>\<open>self.s3_prefix\<close>, and the two thresholds of line 172.
\<close>

record uploader_cfg =
  s3_bucket :: string
  s3_prefix :: string

definition S3_UPLOAD_INTERVAL :: real where
  "S3_UPLOAD_INTERVAL = 300"

definition BATCH_COUNT :: nat where
  "BATCH_COUNT = 10"

text \<open>
  The local variables of \<^verbatim>\<open>_s3_upload_loop\<close> that live across its iterations, with the
  world.
\<close>

record uploader =
  wld :: world
  files_to_upload :: "path list"
  last_upload_time :: real

text \<open>
  What one iteration of the loop meets: the value of \<^verbatim>\<open>self.running\<close> at the head of the
  loop, the files the capture thread has written and the paths it has put into the queue
  since the last iteration, the value of \<^verbatim>\<open>time.time()\<close> at line 171, and the storage
  client's answers during this iteration.
\<close>

record upload_env =
  u_running :: bool
  u_created :: "path list"
  u_puts :: "path list"
  u_now :: real
  u_client :: s3_client

definition producer_acts :: "upload_env \<Rightarrow> world \<Rightarrow> world" where
  "producer_acts e w =
     w\<lparr>disk := disk w \<union> set (u_created e), video_queue := video_queue w @ u_puts e\<rparr>"

text \<open>
  Lines 162--168: \<^verbatim>\<open>get_nowait\<close> until the queue raises \<^verbatim>\<open>queue.Empty\<close>. The result is
  the queue that is left and the batch.
\<close>

fun drain :: "path list \<Rightarrow> path list \<Rightarrow> path list \<times> path list" where
  "drain [] files = ([], files)"
| "drain (filepath # queue) files = drain queue (files @ [filepath])"

text \<open>
  Lines 181--197, the \<^verbatim>\<open>try\<close> for one file of the batch: upload, then remove; the
  handler \<^verbatim>\<open>except Exception\<close> logs and goes on.
\<close>

definition upload_one :: "uploader_cfg \<Rightarrow> s3_client \<Rightarrow> path \<Rightarrow> world \<Rightarrow> event list \<times> world \<times> flow" where
  "upload_one cfg client filepath w =
     (let s3_key = s3_key_of (s3_prefix cfg) filepath;
          bucket = s3_bucket cfg;
          started = [Log (Uploading filepath bucket s3_key)]
      in case upload_file client filepath bucket s3_key w of
           Inl e \<Rightarrow>
             if is_Exception e
             then (started @ [S3Raised filepath bucket s3_key e, Log (FailedToUpload filepath e)],
                   w, Normal)
             else (started @ [S3Raised filepath bucket s3_key e], w, Raise e)
         | Inr w1 \<Rightarrow>
             (case os_remove filepath w1 of
                Inl e \<Rightarrow>
                  if is_Exception e
                  then (started @ [S3Stored filepath bucket s3_key, Log (FailedToUpload filepath e)],
                        w1, Normal)
                  else (started @ [S3Stored filepath bucket s3_key], w1, Raise e)
              | Inr w2 \<Rightarrow>
                  (started @ [S3Stored filepath bucket s3_key, OsRemoved filepath,
                              Log (UploadedAndRemoved filepath)],
                   w2, Normal)))"

text \<open>Lines 176--197, the \<^verbatim>\<open>for\<close> over the batch.\<close>

fun upload_files :: "uploader_cfg \<Rightarrow> s3_client \<Rightarrow> path list \<Rightarrow> world \<Rightarrow> event list \<times> world \<times> flow" where
  "upload_files cfg client [] w = ([], w, Normal)"
| "upload_files cfg client (filepath # rest) w =
     (if filepath \<notin> disk w
      then (case upload_files cfg client rest w of
              (evs, w', r) \<Rightarrow> (Log (SkippingMissing filepath) # evs, w', r))
      else (case upload_one cfg client filepath w of
              (ev1, w1, Normal) \<Rightarrow>
                (case upload_files cfg client rest w1 of
                   (evs, w', r) \<Rightarrow> (ev1 @ evs, w', r))
            | (ev1, w1, r) \<Rightarrow> (ev1, w1, r)))"

text \<open>Lines 161--204, the body of the \<^verbatim>\<open>while\<close>.\<close>

definition upload_iteration :: "uploader_cfg \<Rightarrow> upload_env \<Rightarrow> uploader \<Rightarrow> event list \<times> uploader \<times> flow" where
  "upload_iteration cfg e u =
     (case drain (video_queue (wld u)) (files_to_upload u) of
        (queue, files) \<Rightarrow>
          let w = (wld u)\<lparr>video_queue := queue\<rparr>;
              current_time = u_now e
          in if current_time - last_upload_time u \<ge> S3_UPLOAD_INTERVAL \<or> length files \<ge> BATCH_COUNT
             then
               (if files \<noteq> []
                then (case upload_files cfg (u_client e) files w of
                        (evs, w', Normal) \<Rightarrow>
                          (Log (StartingUpload (length files)) # evs @ [Sleep 5],
                           \<lparr>wld = w', files_to_upload = [], last_upload_time = current_time\<rparr>,
                           Normal)
                      | (evs, w', r) \<Rightarrow>
                          (Log (StartingUpload (length files)) # evs,
                           \<lparr>wld = w', files_to_upload = files,
                            last_upload_time = last_upload_time u\<rparr>,
                           r))
                else ([Sleep 5],
                      \<lparr>wld = w, files_to_upload = files, last_upload_time = last_upload_time u\<rparr>,
                      Normal))
             else ([Sleep 5],
                   \<lparr>wld = w, files_to_upload = files, last_upload_time = last_upload_time u\<rparr>,
                   Normal))"

text \<open>
  Lines 160--206, the \<^verbatim>\<open>while self.running\<close>: one observation of the environment for
  each time the head of the loop is reached. With no observation left the loop has not
  ended.
\<close>

fun upload_loop :: "uploader_cfg \<Rightarrow> upload_env list \<Rightarrow> uploader \<Rightarrow> event list \<times> uploader \<times> ending" where
  "upload_loop cfg [] u = ([], u, Unfinished)"
| "upload_loop cfg (e # es) u =
     (let u0 = u\<lparr>wld := producer_acts e (wld u)\<rparr>
      in if \<not> u_running e then ([Log UploadLoopEnded], u0, Ended)
         else (case upload_iteration cfg e u0 of
                 (evs, u1, Normal) \<Rightarrow>
                   (case upload_loop cfg es u1 of (evs', u2, r) \<Rightarrow> (evs @ evs', u2, r))
               | (evs, u1, Raise x) \<Rightarrow> (evs, u1, Died x)
               | (evs, u1, Blocked) \<Rightarrow> (evs, u1, Unfinished)))"

text \<open>
  \<^verbatim>\<open>_s3_upload_loop\<close> from its first line: \<open>t0\<close> is the value of \<^verbatim>\<open>time.time()\<close> at
  line 157.
\<close>

definition s3_upload_loop :: "uploader_cfg \<Rightarrow> real \<Rightarrow> upload_env list \<Rightarrow> world \<Rightarrow> event list \<times> uploader \<times> ending" where
  "s3_upload_loop cfg t0 envs w =
     upload_loop cfg envs \<lparr>wld = w, files_to_upload = [], last_upload_time = t0\<rparr>"

section \<open>pi\_camera.py: the capture worker\<close>

definition VIDEO_CHUNK_DURATION :: real where
  "VIDEO_CHUNK_DURATION = 60"

text \<open>
  The calls of the \<^verbatim>\<open>try\<close> block of lines 113--133 that may raise, in the order of the
  source.
\<close>

datatype capture_call =
  CreateEncoder | EncoderStartCall | EncoderStopCall | CameraStopCall | CameraStartCall

text \<open>
  What one iteration of \<^verbatim>\<open>_capture_video_loop\<close> meets: the value of \<^verbatim>\<open>self.running\<close> at
  the head of the loop, the wall clock read at line 110, the first call of the
  \<^verbatim>\<open>try\<close> block that raises (if one does) with what it raises, the value of
  \<^verbatim>\<open>time.time()\<close> at line 122 and the pairs of \<^verbatim>\<open>time.time()\<close> and \<^verbatim>\<open>self.running\<close>
  read by each test of the inner \<^verbatim>\<open>while\<close> of line 123, and what the restart of lines
  142--144 raises (if it does).
\<close>

record capture_env =
  c_running :: bool
  c_now :: datetime
  c_fault :: "(capture_call \<times> py_exc) option"
  c_start_time :: real
  c_polls :: "(real \<times> bool) list"
  c_restart_fault :: "py_exc option"

definition raises_at :: "capture_env \<Rightarrow> capture_call \<Rightarrow> py_exc option" where
  "raises_at e c = (case c_fault e of
                      None \<Rightarrow> None
                    | Some (c', x) \<Rightarrow> if c' = c then Some x else None)"

text \<open>
  Lines 123--124: the number of \<^verbatim>\<open>time.sleep(0.1)\<close> calls before the test fails, or
  \<open>None\<close> while the observations given do not make it fail.
\<close>

fun wait_for_chunk :: "real \<Rightarrow> (real \<times> bool) list \<Rightarrow> nat option" where
  "wait_for_chunk start_time [] = None"
| "wait_for_chunk start_time ((t, r) # polls) =
     (if t - start_time < VIDEO_CHUNK_DURATION \<and> r
      then map_option Suc (wait_for_chunk start_time polls)
      else Some 0)"

text \<open>
  Lines 114--133, the \<^verbatim>\<open>try\<close> block. \<^verbatim>\<open>encoder.start()\<close> creates the file (as the
  mock encoder of the repository does); a start that raises is taken to leave none.
  The sleeps of the inner loop are one event.
\<close>

definition capture_try :: "path \<Rightarrow> capture_env \<Rightarrow> world \<Rightarrow> event list \<times> world \<times> flow" where
  "capture_try filepath e w =
     (let ev0 = [Log (StartingChunk filepath)];
          w1 = w\<lparr>disk := insert filepath (disk w)\<rparr>;
          ev1 = ev0 @ [EncoderStart filepath]
      in
      (case raises_at e CreateEncoder of
         Some x \<Rightarrow> (ev0, w, Raise x)
       | None \<Rightarrow>
      (case raises_at e EncoderStartCall of
         Some x \<Rightarrow> (ev0, w, Raise x)
       | None \<Rightarrow>
      (case wait_for_chunk (c_start_time e) (c_polls e) of
         None \<Rightarrow> (ev1, w1, Blocked)
       | Some n \<Rightarrow>
      (let ev2 = ev1 @ [Sleep (real n / 10)];
           ev3 = ev2 @ [EncoderStop filepath]
       in
      (case raises_at e EncoderStopCall of
         Some x \<Rightarrow> (ev2, w1, Raise x)
       | None \<Rightarrow>
      (case raises_at e CameraStopCall of
         Some x \<Rightarrow> (ev3, w1, Raise x)
       | None \<Rightarrow>
      (case raises_at e CameraStartCall of
         Some x \<Rightarrow> (ev3 @ [CameraStop], w1, Raise x)
       | None \<Rightarrow>
           (ev3 @ [CameraStop, CameraStart, QueuePut filepath, Log (FinishedChunk filepath)],
            w1\<lparr>video_queue := video_queue w1 @ [filepath]\<rparr>,
            Normal)))))))))"

text \<open>
  Lines 110--146, the body of the \<^verbatim>\<open>while\<close>: the \<^verbatim>\<open>try\<close> block, and the handler
  \<^verbatim>\<open>except Exception\<close> with its own \<^verbatim>\<open>try\<close> around the restart of the camera. The
  calls of a restart that raises are not recorded.
\<close>

definition capture_iteration :: "path \<Rightarrow> capture_env \<Rightarrow> world \<Rightarrow> event list \<times> world \<times> flow" where
  "capture_iteration storage_path e w =
     (let filepath = capture_filepath storage_path (c_now e) in
      case capture_try filepath e w of
        (evs, w', Raise x) \<Rightarrow>
          if is_Exception x
          then (let evs1 = evs @ [Log (CaptureError x), Sleep 1] in
                case c_restart_fault e of
                  None \<Rightarrow> (evs1 @ [CameraStop, CameraConfigure, CameraStart], w', Normal)
                | Some r \<Rightarrow>
                    if is_Exception r then (evs1 @ [Log (RestartFailed r)], w', Normal)
                    else (evs1, w', Raise r))
          else (evs, w', Raise x)
      | (evs, w', r) \<Rightarrow> (evs, w', r))"

text \<open>Lines 109--146, the \<^verbatim>\<open>while self.running\<close>.\<close>

fun capture_loop :: "path \<Rightarrow> capture_env list \<Rightarrow> world \<Rightarrow> event list \<times> world \<times> ending" where
  "capture_loop storage_path [] w = ([], w, Unfinished)"
| "capture_loop storage_path (e # es) w =
     (if \<not> c_running e then ([], w, Ended)
      else (case capture_iteration storage_path e w of
              (evs, w1, Normal) \<Rightarrow>
                (case capture_loop storage_path es w1 of (evs', w2, r) \<Rightarrow> (evs @ evs', w2, r))
            | (evs, w1, Raise x) \<Rightarrow> (evs, w1, Died x)
            | (evs, w1, Blocked) \<Rightarrow> (evs, w1, Unfinished)))"

text \<open>
  \<^verbatim>\<open>_capture_video_loop\<close> from its first line: the camera is configured and started
  outside any \<^verbatim>\<open>try\<close> (\<open>startup_fault\<close> is what these calls raise, if they do), and
  after the loop it is stopped under a bare \<^verbatim>\<open>except\<close>, which catches everything.
\<close>

definition capture_video_loop :: "path \<Rightarrow> py_exc option \<Rightarrow> capture_env list \<Rightarrow> world \<Rightarrow> event list \<times> world \<times> ending" where
  "capture_video_loop storage_path startup_fault envs w =
     (case startup_fault of
        Some x \<Rightarrow> ([], w, Died x)
      | None \<Rightarrow>
          (case capture_loop storage_path envs w of
             (evs, w', Ended) \<Rightarrow>
               ([CameraConfigure, CameraStart] @ evs @ [CameraStop, Log CaptureLoopEnded], w', Ended)
           | (evs, w', r) \<Rightarrow> ([CameraConfigure, CameraStart] @ evs, w', r)))"

section \<open>stream.py\<close>

text \<open>
  What \<^verbatim>\<open>cap.read()\<close> gives, one value for each call: a frame (with the wall clock at
  that moment, which line 47 reads when the frame opens a chunk), no frame
  (\<^verbatim>\<open>ret\<close> is false), or a \<^verbatim>\<open>KeyboardInterrupt\<close> raised while the call waits.
\<close>

datatype read_result = Frame datetime | NoFrame | Interrupted

text \<open>
  The local variables of \<^verbatim>\<open>save\<close>. \<^verbatim>\<open>current_writer\<close> and \<^verbatim>\<open>current_filename\<close> are
  assigned together at lines 48--49 and stay set from then on (a released writer is
  still an object): \<open>current_file\<close> is \<open>None\<close> before and the file of the writer after.
\<close>

record save_state =
  chunk_counter :: nat
  frame_counter :: nat
  current_file :: "path option"

definition save_init :: save_state where
  "save_init = \<lparr>chunk_counter = 0, frame_counter = 0, current_file = None\<rparr>"

text \<open>
  Lines 42--50, the rotation: release, upload and remove the chunk that is open, then open
  the next one. Creating the writer creates its file.
\<close>

definition rotate :: "s3_client \<Rightarrow> string \<Rightarrow> datetime \<Rightarrow> save_state \<Rightarrow> world \<Rightarrow> event list \<times> save_state \<times> world \<times> flow" where
  "rotate client bucket d s w =
     (let closed =
            (case current_file s of
               None \<Rightarrow> ([], w, Normal)
             | Some old \<Rightarrow>
                 (case upload_to_s3 old client bucket w of
                    (evs, w1, Normal) \<Rightarrow>
                      (case os_remove old w1 of
                         Inr w2 \<Rightarrow> (WriterReleased old # evs @ [OsRemoved old], w2, Normal)
                       | Inl x \<Rightarrow> (WriterReleased old # evs, w1, Raise x))
                  | (evs, w1, r) \<Rightarrow> (WriterReleased old # evs, w1, r)))
      in case closed of
           (evs, w', Normal) \<Rightarrow>
             (let filename = chunk_filename d (chunk_counter s)
              in (evs @ [WriterOpened filename],
                  s\<lparr>current_file := Some filename, chunk_counter := chunk_counter s + 1\<rparr>,
                  w'\<lparr>disk := insert filename (disk w')\<rparr>,
                  Normal))
         | (evs, w', r) \<Rightarrow> (evs, s, w', r))"

text \<open>
  Lines 36--53, the \<^verbatim>\<open>while True\<close>. Writing a frame changes the content of the file
  only, which the world does not hold. With no observation left the loop is still
  reading.
\<close>

fun save_loop :: "s3_client \<Rightarrow> string \<Rightarrow> int \<Rightarrow> read_result list \<Rightarrow> save_state \<Rightarrow> world \<Rightarrow> event list \<times> save_state \<times> world \<times> flow" where
  "save_loop client bucket frames_per_chunk [] s w = ([], s, w, Blocked)"
| "save_loop client bucket frames_per_chunk (NoFrame # reads) s w = ([], s, w, Normal)"
| "save_loop client bucket frames_per_chunk (Interrupted # reads) s w =
     ([], s, w, Raise KeyboardInterrupt)"
| "save_loop client bucket frames_per_chunk (Frame d # reads) s w =
     (case (if int (frame_counter s) mod frames_per_chunk = 0
            then rotate client bucket d s w
            else ([], s, w, Normal)) of
        (evs, s1, w1, Normal) \<Rightarrow>
          (case save_loop client bucket frames_per_chunk reads
                  (s1\<lparr>frame_counter := frame_counter s1 + 1\<rparr>) w1 of
             (evs', s2, w2, r) \<Rightarrow> (evs @ evs', s2, w2, r))
      | (evs, s1, w1, r) \<Rightarrow> (evs, s1, w1, r))"

text \<open>Lines 57--63, the \<^verbatim>\<open>finally\<close> block.\<close>

definition save_finally :: "s3_client \<Rightarrow> string \<Rightarrow> save_state \<Rightarrow> world \<Rightarrow> event list \<times> world \<times> flow" where
  "save_finally client bucket s w =
     (case current_file s of
        None \<Rightarrow> ([CapReleased], w, Normal)
      | Some cur \<Rightarrow>
          if cur \<in> disk w
          then (case upload_to_s3 cur client bucket w of
                  (evs, w1, Normal) \<Rightarrow>
                    (case os_remove cur w1 of
                       Inr w2 \<Rightarrow> (WriterReleased cur # evs @ [OsRemoved cur, CapReleased], w2, Normal)
                     | Inl x \<Rightarrow> (WriterReleased cur # evs, w1, Raise x))
                | (evs, w1, r) \<Rightarrow> (WriterReleased cur # evs, w1, r))
          else ([WriterReleased cur, CapReleased], w, Normal))"

text \<open>
  \<^verbatim>\<open>save(url, s3_bucket_name)\<close>. \<open>opened\<close> is \<^verbatim>\<open>cap.isOpened()\<close> and \<open>fps_reported\<close>
  is \<^verbatim>\<open>int(cap.get(cv2.CAP_PROP_FPS))\<close>. The handler of line 55 swallows a
  \<^verbatim>\<open>KeyboardInterrupt\<close>; any other exception leaves \<^verbatim>\<open>save\<close> after the \<^verbatim>\<open>finally\<close>
  block, and an exception raised in that block replaces it.
\<close>

definition save :: "bool \<Rightarrow> int \<Rightarrow> s3_client \<Rightarrow> string \<Rightarrow> read_result list \<Rightarrow> world \<Rightarrow> event list \<times> world \<times> ending" where
  "save opened fps_reported client s3_bucket_name reads w =
     (if \<not> opened then ([], w, Died (Exc ''Failed to open RTSP stream''))
      else
        let fps = (if fps_reported = 0 then 30 else fps_reported);
            chunk_duration = 60;
            frames_per_chunk = fps * chunk_duration
        in case save_loop client s3_bucket_name frames_per_chunk reads save_init w of
             (evs, s, w1, Blocked) \<Rightarrow> (evs, w1, Unfinished)
           | (evs, s, w1, r) \<Rightarrow>
               (case save_finally client s3_bucket_name s w1 of
                  (evs', w2, Raise x) \<Rightarrow> (evs @ evs', w2, Died x)
                | (evs', w2, r') \<Rightarrow>
                    (evs @ evs', w2,
                     (case r of
                        Raise x \<Rightarrow> if x = KeyboardInterrupt then Ended else Died x
                      | _ \<Rightarrow> Ended))))"

section \<open>Notions the properties are stated with\<close>

subsection \<open>Shapes of names\<close>

definition is_digit :: "char \<Rightarrow> bool" where
  "is_digit c \<longleftrightarrow> c \<in> set ''0123456789''"

text \<open>The shape \<^verbatim>\<open>YYYYMMDD_HHMMSS\<close>.\<close>

definition timestamp_shaped :: "string \<Rightarrow> bool" where
  "timestamp_shaped ts \<longleftrightarrow>
     length ts = 15 \<and> list_all is_digit (take 8 ts) \<and> ts ! 8 = CHR ''_'' \<and>
     list_all is_digit (drop 9 ts)"

subsection \<open>Sample inputs\<close>

definition noon :: datetime where
  "noon = \<lparr>year = 2024, month = 1, day = 2, hour = 12, minute = 0, second = 0\<rparr>"

definition one_file :: world where
  "one_file = \<lparr>disk = {''/tmp/video_chunks/c.mp4''}, video_queue = [], s3_objects = []\<rparr>"

subsection \<open>Upload cycles\<close>

text \<open>
  A cycle of the upload worker opens with the log line of line 174, and with nothing
  else.
\<close>

fun is_cycle_start :: "event \<Rightarrow> bool" where
  "is_cycle_start (Log (StartingUpload n)) = True"
| "is_cycle_start _ = False"

definition cycle_started :: "event list \<Rightarrow> bool" where
  "cycle_started evs = list_ex is_cycle_start evs"

definition cycle_due :: "upload_env \<Rightarrow> uploader \<Rightarrow> bool" where
  "cycle_due e u \<longleftrightarrow>
     files_to_upload u @ video_queue (wld u) \<noteq> [] \<and>
     (u_now e - last_upload_time u \<ge> S3_UPLOAD_INTERVAL \<or>
      length (files_to_upload u @ video_queue (wld u)) \<ge> BATCH_COUNT)"

subsection \<open>More sample inputs\<close>

definition empty_world :: world where
  "empty_world = \<lparr>disk = {}, video_queue = [], s3_objects = []\<rparr>"

definition pi_cfg :: uploader_cfg where
  "pi_cfg = \<lparr>s3_bucket = ''bucket'', s3_prefix = ''pi_videos/''\<rparr>"

definition quiet_at :: "real \<Rightarrow> upload_env" where
  "quiet_at t =
     \<lparr>u_running = True, u_created = [], u_puts = [], u_now = t, u_client = (\<lambda>p. None)\<rparr>"

definition arrival_at :: "real \<Rightarrow> path \<Rightarrow> upload_env" where
  "arrival_at t p =
     \<lparr>u_running = True, u_created = [p], u_puts = [p], u_now = t, u_client = (\<lambda>p. None)\<rparr>"

definition fresh_uploader :: "real \<Rightarrow> uploader" where
  "fresh_uploader t0 = \<lparr>wld = empty_world, files_to_upload = [], last_upload_time = t0\<rparr>"

definition one_pending :: uploader where
  "one_pending =
     \<lparr>wld = \<lparr>disk = {''videos/a.h264''}, video_queue = [''videos/a.h264''], s3_objects = []\<rparr>,
      files_to_upload = [], last_upload_time = 0\<rparr>"

subsection \<open>Reading a trace\<close>

text \<open>
  The file an event tries to upload, the file it stores in the bucket, the file it puts
  into the queue, the file it removes, and the file whose video writer it opens.
\<close>

fun attempt_of :: "event \<Rightarrow> path option" where
  "attempt_of (S3Stored p b k) = Some p"
| "attempt_of (S3Raised p b k x) = Some p"
| "attempt_of _ = None"

fun stored_of :: "event \<Rightarrow> path option" where
  "stored_of (S3Stored p b k) = Some p"
| "stored_of _ = None"

fun put_of :: "event \<Rightarrow> path option" where
  "put_of (QueuePut p) = Some p"
| "put_of _ = None"

fun removed_of :: "event \<Rightarrow> path option" where
  "removed_of (OsRemoved p) = Some p"
| "removed_of _ = None"

fun opened_of :: "event \<Rightarrow> path option" where
  "opened_of (WriterOpened p) = Some p"
| "opened_of _ = None"

definition upload_attempts :: "event list \<Rightarrow> path list" where
  "upload_attempts evs = List.map_filter attempt_of evs"

definition stored_files :: "event list \<Rightarrow> path list" where
  "stored_files evs = List.map_filter stored_of evs"

definition queue_puts :: "event list \<Rightarrow> path list" where
  "queue_puts evs = List.map_filter put_of evs"

definition removed_files :: "event list \<Rightarrow> path list" where
  "removed_files evs = List.map_filter removed_of evs"

definition writer_opens :: "event list \<Rightarrow> path list" where
  "writer_opens evs = List.map_filter opened_of evs"

text \<open>
  Every file stored in the bucket is removed from the disk by the next call the program
  makes (log lines may come in between).
\<close>

fun is_log :: "event \<Rightarrow> bool" where
  "is_log (Log m) = True"
| "is_log _ = False"

fun removed_after_store :: "event list \<Rightarrow> bool" where
  "removed_after_store [] = True"
| "removed_after_store (e # es) =
     ((case stored_of e of
         None \<Rightarrow> True
       | Some p \<Rightarrow> (case dropWhile is_log es of [] \<Rightarrow> False | e' # es' \<Rightarrow> e' = OsRemoved p)) \<and>
      removed_after_store es)"

text \<open>
  The files that are written and closed after an event (an encoder or a writer has been
  started on the file, and the last call on it stopped or released one), and the trace
  in which every file put into the queue or given to the storage client is written and
  closed at that moment.
\<close>

fun closed_after :: "path set \<Rightarrow> event \<Rightarrow> path set" where
  "closed_after cl (EncoderStart p) = cl - {p}"
| "closed_after cl (WriterOpened p) = cl - {p}"
| "closed_after cl (EncoderStop p) = insert p cl"
| "closed_after cl (WriterReleased p) = insert p cl"
| "closed_after cl e = cl"

definition handed_over :: "event \<Rightarrow> path option" where
  "handed_over e = (case put_of e of Some p \<Rightarrow> Some p | None \<Rightarrow> attempt_of e)"

fun closed_before_handover :: "path set \<Rightarrow> event list \<Rightarrow> bool" where
  "closed_before_handover cl [] = True"
| "closed_before_handover cl (e # es) =
     ((case handed_over e of None \<Rightarrow> True | Some p \<Rightarrow> p \<in> cl) \<and>
      closed_before_handover (closed_after cl e) es)"

text \<open>The file of the batch an event of the upload worker deals with.\<close>

fun visit_of :: "event \<Rightarrow> path option" where
  "visit_of (Log (SkippingMissing p)) = Some p"
| "visit_of (S3Stored p b k) = Some p"
| "visit_of (S3Raised p b k x) = Some p"
| "visit_of _ = None"

definition batch_visits :: "event list \<Rightarrow> path list" where
  "batch_visits evs = List.map_filter visit_of evs"

text \<open>What the upload worker holds and has not dealt with: its batch, then the queue.\<close>

definition pending :: "uploader \<Rightarrow> path list" where
  "pending u = files_to_upload u @ video_queue (wld u)"

subsection \<open>Errors that are caught, and more sample inputs\<close>

text \<open>Everything the storage client raises is an \<^verbatim>\<open>Exception\<close>.\<close>

definition exceptions_only :: "s3_client \<Rightarrow> bool" where
  "exceptions_only client \<longleftrightarrow> (\<forall>p x. client p = Some x \<longrightarrow> is_Exception x)"

text \<open>Everything the calls of a capture iteration raise is an \<^verbatim>\<open>Exception\<close>.\<close>

definition faults_caught :: "capture_env \<Rightarrow> bool" where
  "faults_caught e \<longleftrightarrow>
     (\<forall>c x. c_fault e = Some (c, x) \<longrightarrow> is_Exception x) \<and>
     (\<forall>x. c_restart_fault e = Some x \<longrightarrow> is_Exception x)"

text \<open>
  A capture iteration that starts at noon, waits until a minute has passed and meets no
  fault; the same with an encoder that cannot be stopped; and the test of the loop that
  reads a cleared flag.
\<close>

definition steady :: capture_env where
  "steady = \<lparr>c_running = True, c_now = noon, c_fault = None, c_start_time = 0,
              c_polls = [(30, True), (60, True)], c_restart_fault = None\<rparr>"

definition stop_fails :: capture_env where
  "stop_fails = steady\<lparr>c_fault := Some (EncoderStopCall, Exc ''encoder error'')\<rparr>"

definition flag_cleared :: capture_env where
  "flag_cleared = steady\<lparr>c_running := False\<rparr>"

definition flag_cleared_u :: upload_env where
  "flag_cleared_u = (quiet_at 20)\<lparr>u_running := False\<rparr>"

text \<open>The chunk \<^verbatim>\<open>save\<close> is writing, as a list of at most one file.\<close>

definition current_list :: "save_state \<Rightarrow> path list" where
  "current_list s = (case current_file s of None \<Rightarrow> [] | Some p \<Rightarrow> [p])"

subsection \<open>Names in a trace\<close>

text \<open>
  The file an event starts the encoder on, the time at which a frame was read, and the
  event that gives a file to the storage client under the bucket \<open>b\<close> and the key \<open>k\<close>
  of the file, if it gives one at all.
\<close>

fun recorded_of :: "event \<Rightarrow> path option" where
  "recorded_of (EncoderStart p) = Some p"
| "recorded_of _ = None"

definition recorded_files :: "event list \<Rightarrow> path list" where
  "recorded_files evs = List.map_filter recorded_of evs"

fun frame_time :: "read_result \<Rightarrow> datetime option" where
  "frame_time (Frame d) = Some d"
| "frame_time _ = None"

definition frame_times :: "read_result list \<Rightarrow> datetime list" where
  "frame_times reads = List.map_filter frame_time reads"

fun keyed :: "string \<Rightarrow> (path \<Rightarrow> string) \<Rightarrow> event \<Rightarrow> bool" where
  "keyed b k (S3Stored p b' key) = (b' = b \<and> key = k p)"
| "keyed b k (S3Raised p b' key x) = (b' = b \<and> key = k p)"
| "keyed b k _ = True"

text \<open>A capture iteration in which the flag is found cleared 40 s into the chunk.\<close>

definition stopped_midway :: capture_env where
  "stopped_midway = steady\<lparr>c_polls := [(30, True), (40, False)]\<rparr>"

text \<open>
  Two files that reach the upload worker one after the other, the second when the
  interval has passed, and then the cleared flag.
\<close>

definition two_arrivals :: "upload_env list" where
  "two_arrivals =
     [arrival_at 10 ''videos/a.h264'', arrival_at 400 ''videos/b.h264'', flag_cleared_u]"

section \<open>File names and object keys\<close>

lemma digit_is_digit: "is_digit (digit n)"
  unfolding is_digit_def digit_def by (rule nth_mem) simp

lemma is_digit_zero: "is_digit CHR ''0''"
  by (simp add: is_digit_def)

lemma is_digit_not_slash: "is_digit c \<Longrightarrow> c \<noteq> CHR ''/''"
  by (auto simp: is_digit_def)

lemma decimal_digits: "list_all is_digit (decimal n)"
proof (induction n rule: decimal.induct)
  case (1 n)
  show ?case
  proof (cases "n < 10")
    case True
    then show ?thesis by (subst decimal.simps) (simp add: digit_is_digit)
  next
    case False
    with 1 show ?thesis by (subst decimal.simps) (simp add: digit_is_digit)
  qed
qed

lemma decimal_length_2: "n < 100 \<Longrightarrow> length (decimal n) \<le> 2"
  by (subst decimal.simps, simp, subst decimal.simps, simp)

lemma decimal_length_4: "n < 10000 \<Longrightarrow> length (decimal n) \<le> 4"
  apply (subst decimal.simps, simp)
  apply (subst decimal.simps, simp)
  apply (subst decimal.simps, simp)
  apply (subst decimal.simps, simp)
  done

lemma zfill_length: "length s \<le> w \<Longrightarrow> length (zfill w s) = w"
  by (simp add: zfill_def)

lemma zfill_length_ge: "w \<le> length (zfill w s)"
  by (simp add: zfill_def)

lemma zfill_digits: "list_all is_digit s \<Longrightarrow> list_all is_digit (zfill w s)"
  by (auto simp: zfill_def is_digit_zero list_all_iff)

lemma shaped_parts:
  assumes "length a = 8" "list_all is_digit a" "length b = 6" "list_all is_digit b"
  shows "timestamp_shaped (a @ CHR ''_'' # b)"
  using assms by (simp add: timestamp_shaped_def nth_append)

lemma strftime_shape:
  assumes "valid_datetime d"
  shows "timestamp_shaped (strftime d)"
proof -
  define a where
    "a = zfill 4 (decimal (year d)) @ zfill 2 (decimal (month d)) @ zfill 2 (decimal (day d))"
  define b where
    "b = zfill 2 (decimal (hour d)) @ zfill 2 (decimal (minute d)) @ zfill 2 (decimal (second d))"
  from assms have "year d < 10000" "month d < 100" "day d < 100" "hour d < 100"
      "minute d < 100" "second d < 100"
    by (simp_all add: valid_datetime_def)
  then have la: "length a = 8" and lb: "length b = 6"
    by (simp_all add: a_def b_def zfill_length decimal_length_2 decimal_length_4)
  have da: "list_all is_digit a" and db: "list_all is_digit b"
    by (simp_all add: a_def b_def zfill_digits decimal_digits)
  have "strftime d = a @ CHR ''_'' # b"
    by (simp add: strftime_def a_def b_def)
  with shaped_parts[OF la da lb db] show ?thesis by simp
qed

lemma zfill_decimal_no_slash: "CHR ''/'' \<notin> set (zfill w (decimal n))"
  using zfill_digits[OF decimal_digits, of w n] is_digit_not_slash
  by (auto simp: list_all_iff)

lemma strftime_no_slash: "CHR ''/'' \<notin> set (strftime d)"
  by (simp add: strftime_def zfill_decimal_no_slash)

lemma takeWhile_rev_last:
  "xs \<noteq> [] \<Longrightarrow> \<not> P (last xs) \<Longrightarrow> \<forall>c\<in>set ys. P c \<Longrightarrow>
     takeWhile P (rev ys @ rev xs) = rev ys"
  by (cases xs rule: rev_cases) (simp_all add: takeWhile_append)

lemma path_name_join: "CHR ''/'' \<notin> set name \<Longrightarrow> path_name (path_join dir name) = name"
proof -
  assume n: "CHR ''/'' \<notin> set name"
  then have all: "\<forall>c\<in>set name. c \<noteq> CHR ''/''" by auto
  have tw: "takeWhile (\<lambda>c. c \<noteq> CHR ''/'') (rev name) = rev name"
    using all by simp
  have 1: "path_name name = name"
    unfolding path_name_def tw by simp
  have 2: "path_name (dir @ name) = name" if "dir \<noteq> []" "last dir = CHR ''/''"
    using takeWhile_rev_last[of dir "\<lambda>c. c \<noteq> CHR ''/''" name] that all
    by (simp add: path_name_def)
  have 3: "path_name (dir @ ''/'' @ name) = name"
    using all by (simp add: path_name_def takeWhile_append)
  from 1 2 3 show ?thesis by (simp add: path_join_def)
qed

lemma path_name_chunk_filename:
  "path_name (chunk_filename d n) = ''chunk_'' @ strftime d @ ''_'' @ zfill 4 (decimal n) @ ''.mp4''"
  unfolding chunk_filename_def
  by (rule path_name_join) (simp add: strftime_no_slash zfill_decimal_no_slash)

lemma path_name_capture_filepath:
  "path_name (capture_filepath storage_path d) = ''video_'' @ strftime d @ ''.h264''"
  unfolding capture_filepath_def VIDEO_FORMAT_def
  by (subst path_name_join) (simp_all add: strftime_no_slash)

lemma strftime_noon: "strftime noon = ''20240102_120000''"
  by (simp add: noon_def strftime_def zfill_def decimal.simps digit_def)

lemma valid_noon: "valid_datetime noon"
  by (simp add: noon_def valid_datetime_def)

lemma seq_seven: "zfill 4 (decimal 7) = ''0007''"
  by code_simp

section \<open>upload\_to\_s3 and the errors of the storage client\<close>

text \<open>
  Claim C10, as the code has it. When the storage client raises an instance of
  \<^verbatim>\<open>Exception\<close> for a file that exists, \<^verbatim>\<open>upload_to_s3\<close> prints the failure, changes
  nothing and returns as it does after a successful upload, so its caller cannot tell
  the two apart. An exception that is not an instance of \<^verbatim>\<open>Exception\<close>
  (\<^verbatim>\<open>KeyboardInterrupt\<close>, \<^verbatim>\<open>SystemExit\<close>) is not caught: it reaches the caller.
\<close>

theorem upload_to_s3_catches_Exception:
  assumes "local_file \<in> disk w" and "client local_file = Some e"
  shows "(is_Exception e \<longrightarrow>
            upload_to_s3 local_file client bucket w =
              ([S3Raised local_file bucket (chunk_key local_file) e,
                Log (FailedToUpload (path_name local_file) e)], w, Normal) \<and>
            snd (snd (upload_to_s3 local_file client bucket w)) =
              snd (snd (upload_to_s3 local_file (\<lambda>p. None) bucket w))) \<and>
         (\<not> is_Exception e \<longrightarrow>
            snd (snd (upload_to_s3 local_file client bucket w)) = Raise e)"
  using assms by (simp add: upload_to_s3_def upload_file_def Let_def)

theorem upload_to_s3_catches_Exception_witness:
  "''/tmp/video_chunks/c.mp4'' \<in> disk one_file \<and>
   upload_to_s3 ''/tmp/video_chunks/c.mp4'' (\<lambda>p. Some (Exc ''timeout'')) ''bucket'' one_file =
     ([S3Raised ''/tmp/video_chunks/c.mp4'' ''bucket'' ''video_chunks/c.mp4'' (Exc ''timeout''),
       Log (FailedToUpload ''c.mp4'' (Exc ''timeout''))], one_file, Normal)"
  using upload_to_s3_catches_Exception[of "''/tmp/video_chunks/c.mp4''" one_file
      "\<lambda>p. Some (Exc ''timeout'')" "Exc ''timeout''" "''bucket''"]
  by (simp add: one_file_def chunk_key_def path_name_def)

text \<open>
  Claim C10, as the specification states it, fails when the client raises
  \<^verbatim>\<open>KeyboardInterrupt\<close> (the user interrupts the upload): \<^verbatim>\<open>upload_to_s3\<close> does not
  return, the exception reaches its caller.
\<close>

theorem upload_to_s3_counterexample:
  "snd (snd (upload_to_s3 ''/tmp/video_chunks/c.mp4'' (\<lambda>p. Some KeyboardInterrupt) ''bucket''
               one_file)) = Raise KeyboardInterrupt"
  by (simp add: upload_to_s3_def upload_file_def one_file_def)

section \<open>The upload worker: when a cycle runs\<close>

lemma drain_eq: "drain q files = ([], files @ q)"
  by (induction q arbitrary: files) auto

lemma upload_one_no_cycle_start: "\<not> list_ex is_cycle_start (fst (upload_one cfg c p w))"
  by (simp add: upload_one_def Let_def split: sum.splits)

lemma upload_files_Cons_cases:
  assumes "upload_files cfg c (p # fs) w = (evs, w', r)"
  obtains (skip) evs' where "p \<notin> disk w" "upload_files cfg c fs w = (evs', w', r)"
      "evs = Log (SkippingMissing p) # evs'"
  | (sent) ev1 w1 evs' where "p \<in> disk w" "upload_one cfg c p w = (ev1, w1, Normal)"
      "upload_files cfg c fs w1 = (evs', w', r)" "evs = ev1 @ evs'"
  | (abort) "p \<in> disk w" "upload_one cfg c p w = (evs, w', r)" "r \<noteq> Normal"
proof (cases "p \<in> disk w")
  case False
  with assms skip show ?thesis by (auto split: prod.splits)
next
  case True
  obtain ev1 w1 r1 where one: "upload_one cfg c p w = (ev1, w1, r1)"
    using prod_cases3 by blast
  show ?thesis
  proof (cases "r1 = Normal")
    case N: True
    with assms True one sent show ?thesis by (auto split: prod.splits)
  next
    case False
    with assms True one have "evs = ev1" "w' = w1" "r = r1" by (cases r1; simp)+
    with abort True one False show ?thesis by simp
  qed
qed

lemma upload_files_no_cycle_start:
  "upload_files cfg c fs w = (evs, w', r) \<Longrightarrow> \<not> list_ex is_cycle_start evs"
proof (induction fs arbitrary: w evs)
  case Nil
  then show ?case by simp
next
  case (Cons p fs)
  from Cons.prems show ?case
  proof (cases rule: upload_files_Cons_cases)
    case (skip evs')
    with Cons.IH show ?thesis by simp
  next
    case (sent ev1 w1 evs')
    with Cons.IH upload_one_no_cycle_start[of cfg c p w] show ?thesis by simp
  next
    case abort
    with upload_one_no_cycle_start[of cfg c p w] show ?thesis by simp
  qed
qed

lemma upload_iteration_idle:
  assumes "\<not> cycle_due e u"
  shows "upload_iteration cfg e u =
           ([Sleep 5],
            \<lparr>wld = (wld u)\<lparr>video_queue := []\<rparr>,
             files_to_upload = files_to_upload u @ video_queue (wld u),
             last_upload_time = last_upload_time u\<rparr>,
            Normal)"
  using assms by (auto simp: upload_iteration_def drain_eq Let_def cycle_due_def)

lemma upload_iteration_cycle:
  assumes "cycle_due e u"
    and "upload_files cfg (u_client e) (files_to_upload u @ video_queue (wld u))
           ((wld u)\<lparr>video_queue := []\<rparr>) = (evs, w', r)"
  shows "upload_iteration cfg e u =
           (if r = Normal
            then (Log (StartingUpload (length (files_to_upload u @ video_queue (wld u)))) # evs @ [Sleep 5],
                  \<lparr>wld = w', files_to_upload = [], last_upload_time = u_now e\<rparr>, Normal)
            else (Log (StartingUpload (length (files_to_upload u @ video_queue (wld u)))) # evs,
                  \<lparr>wld = w', files_to_upload = files_to_upload u @ video_queue (wld u),
                   last_upload_time = last_upload_time u\<rparr>, r))"
  using assms by (cases r) (auto simp: upload_iteration_def drain_eq Let_def cycle_due_def)

text \<open>
  Claim C2, as the code has it. An iteration of the upload worker runs an upload cycle
  if and only if the batch (what was left over, then what the queue held) is not empty
  and the time since the last cycle is at least \<^verbatim>\<open>S3_UPLOAD_INTERVAL\<close> (300 seconds) or
  the batch holds at least 10 files; either condition is enough. A cycle that runs to
  its end sets the timer to the time read in this iteration and empties the batch; when
  no cycle runs, the timer and the batch stay as they are.
\<close>

theorem upload_cycle_trigger:
  assumes "upload_iteration cfg e u = (evs, u', r)"
  shows "(cycle_started evs \<longleftrightarrow>
            files_to_upload u @ video_queue (wld u) \<noteq> [] \<and>
            (u_now e - last_upload_time u \<ge> S3_UPLOAD_INTERVAL \<or>
             length (files_to_upload u @ video_queue (wld u)) \<ge> BATCH_COUNT)) \<and>
         (cycle_started evs \<and> r = Normal \<longrightarrow>
            last_upload_time u' = u_now e \<and> files_to_upload u' = []) \<and>
         (\<not> cycle_started evs \<longrightarrow>
            last_upload_time u' = last_upload_time u \<and>
            files_to_upload u' = files_to_upload u @ video_queue (wld u) \<and> r = Normal)"
proof (cases "cycle_due e u")
  case False
  from upload_iteration_idle[OF False, of cfg] assms
  have "evs = [Sleep 5]" "r = Normal" "last_upload_time u' = last_upload_time u"
      "files_to_upload u' = files_to_upload u @ video_queue (wld u)"
    by auto
  with False show ?thesis by (simp add: cycle_started_def cycle_due_def)
next
  case True
  obtain evs1 w1 r1 where up:
    "upload_files cfg (u_client e) (files_to_upload u @ video_queue (wld u))
       ((wld u)\<lparr>video_queue := []\<rparr>) = (evs1, w1, r1)"
    using prod_cases3 by blast
  from upload_iteration_cycle[OF True up] assms
  have started: "cycle_started evs"
    and reset: "r = Normal \<longrightarrow> last_upload_time u' = u_now e \<and> files_to_upload u' = []"
    by (auto simp: cycle_started_def split: if_splits)
  with True show ?thesis by (simp add: cycle_due_def)
qed

lemma quiet_300: "upload_iteration pi_cfg (quiet_at 300) (fresh_uploader 0)
   = ([Sleep 5], fresh_uploader 0, Normal)"
  by (simp add: upload_iteration_def quiet_at_def fresh_uploader_def empty_world_def S3_UPLOAD_INTERVAL_def BATCH_COUNT_def)

lemma key_a: "s3_key_of ''pi_videos/'' ''videos/a.h264'' = ''pi_videos/a.h264''"
  by (simp add: s3_key_of_def path_name_def)

lemma one_pending_400:
  "upload_iteration pi_cfg (quiet_at 400) one_pending =
     ([Log (StartingUpload 1), Log (Uploading ''videos/a.h264'' ''bucket'' ''pi_videos/a.h264''),
       S3Stored ''videos/a.h264'' ''bucket'' ''pi_videos/a.h264'', OsRemoved ''videos/a.h264'',
       Log (UploadedAndRemoved ''videos/a.h264''), Sleep 5],
      \<lparr>wld = \<lparr>disk = {}, video_queue = [], s3_objects = [(''bucket'', ''pi_videos/a.h264'')]\<rparr>,
       files_to_upload = [], last_upload_time = 400\<rparr>,
      Normal)"
  by (simp add: upload_iteration_def quiet_at_def one_pending_def S3_UPLOAD_INTERVAL_def
      BATCH_COUNT_def upload_one_def upload_file_def os_remove_def pi_cfg_def key_a Let_def)

theorem upload_cycle_trigger_witness:
  "cycle_started (fst (upload_iteration pi_cfg (quiet_at 400) one_pending)) \<and>
   S3_UPLOAD_INTERVAL \<le> u_now (quiet_at 400) - last_upload_time one_pending \<and>
   last_upload_time (fst (snd (upload_iteration pi_cfg (quiet_at 400) one_pending))) = 400 \<and>
   files_to_upload (fst (snd (upload_iteration pi_cfg (quiet_at 400) one_pending))) = []"
proof -
  note t = upload_cycle_trigger[OF one_pending_400]
  have pending: "files_to_upload one_pending @ video_queue (wld one_pending) \<noteq> []"
    by (simp add: one_pending_def)
  have due: "S3_UPLOAD_INTERVAL \<le> u_now (quiet_at 400) - last_upload_time one_pending"
    by (simp add: S3_UPLOAD_INTERVAL_def quiet_at_def one_pending_def)
  from t pending due have "cycle_started (fst (upload_iteration pi_cfg (quiet_at 400) one_pending))"
    unfolding one_pending_400 fst_conv by blast
  with due show ?thesis
    unfolding one_pending_400 by simp
qed

text \<open>
  Claim C2, as the specification states it, fails on an empty batch: 300 seconds after
  the start no cycle runs and the timer is not reset, so that a file that arrives five
  seconds later is uploaded at once.
\<close>

theorem empty_batch_counterexample:
  "S3_UPLOAD_INTERVAL \<le> u_now (quiet_at 300) - last_upload_time (fresh_uploader 0) \<and>
   \<not> cycle_started (fst (upload_iteration pi_cfg (quiet_at 300) (fresh_uploader 0))) \<and>
   last_upload_time (fst (snd (upload_iteration pi_cfg (quiet_at 300) (fresh_uploader 0)))) = 0 \<and>
   fst (s3_upload_loop pi_cfg 0 [quiet_at 300, arrival_at 305 ''videos/a.h264''] empty_world) =
     [Sleep 5, Log (StartingUpload 1),
      Log (Uploading ''videos/a.h264'' ''bucket'' ''pi_videos/a.h264''),
      S3Stored ''videos/a.h264'' ''bucket'' ''pi_videos/a.h264'', OsRemoved ''videos/a.h264'',
      Log (UploadedAndRemoved ''videos/a.h264''), Sleep 5]"
  by (simp add: quiet_300 cycle_started_def s3_upload_loop_def)
     (simp add: upload_iteration_def quiet_at_def arrival_at_def fresh_uploader_def empty_world_def
        S3_UPLOAD_INTERVAL_def BATCH_COUNT_def upload_one_def upload_file_def os_remove_def
        pi_cfg_def key_a producer_acts_def Let_def)

section \<open>Traces\<close>

lemma map_filter_append: "List.map_filter f (xs @ ys) = List.map_filter f xs @ List.map_filter f ys"
  by (simp add: List.map_filter_def)

lemma batch_visits_simps:
  "batch_visits [] = []"
  "batch_visits (e # es) = (case visit_of e of None \<Rightarrow> batch_visits es | Some p \<Rightarrow> p # batch_visits es)"
  "batch_visits (xs @ ys) = batch_visits xs @ batch_visits ys"
  by (simp_all add: batch_visits_def List.map_filter_simps map_filter_append split: option.splits)


lemma upload_attempts_simps:
  "upload_attempts [] = []"
  "upload_attempts (e # es) = (case attempt_of e of None \<Rightarrow> upload_attempts es | Some p \<Rightarrow> p # upload_attempts es)"
  "upload_attempts (xs @ ys) = upload_attempts xs @ upload_attempts ys"
  by (simp_all add: upload_attempts_def List.map_filter_simps map_filter_append split: option.splits)

lemma stored_files_simps:
  "stored_files [] = []"
  "stored_files (e # es) = (case stored_of e of None \<Rightarrow> stored_files es | Some p \<Rightarrow> p # stored_files es)"
  "stored_files (xs @ ys) = stored_files xs @ stored_files ys"
  by (simp_all add: stored_files_def List.map_filter_simps map_filter_append split: option.splits)

lemma queue_puts_simps:
  "queue_puts [] = []"
  "queue_puts (e # es) = (case put_of e of None \<Rightarrow> queue_puts es | Some p \<Rightarrow> p # queue_puts es)"
  "queue_puts (xs @ ys) = queue_puts xs @ queue_puts ys"
  by (simp_all add: queue_puts_def List.map_filter_simps map_filter_append split: option.splits)

lemma removed_files_simps:
  "removed_files [] = []"
  "removed_files (e # es) = (case removed_of e of None \<Rightarrow> removed_files es | Some p \<Rightarrow> p # removed_files es)"
  "removed_files (xs @ ys) = removed_files xs @ removed_files ys"
  by (simp_all add: removed_files_def List.map_filter_simps map_filter_append split: option.splits)

lemma writer_opens_simps:
  "writer_opens [] = []"
  "writer_opens (e # es) = (case opened_of e of None \<Rightarrow> writer_opens es | Some p \<Rightarrow> p # writer_opens es)"
  "writer_opens (xs @ ys) = writer_opens xs @ writer_opens ys"
  by (simp_all add: writer_opens_def List.map_filter_simps map_filter_append split: option.splits)

lemma dropWhile_append_Cons:
  "dropWhile P xs = e # es \<Longrightarrow> dropWhile P (xs @ ys) = e # es @ ys"
  by (induction xs) (auto split: if_splits)

lemma removed_after_store_append:
  "removed_after_store xs \<Longrightarrow> removed_after_store ys \<Longrightarrow> removed_after_store (xs @ ys)"
proof (induction xs)
  case Nil
  then show ?case by simp
next
  case (Cons e xs)
  show ?case
  proof (cases "stored_of e")
    case None
    with Cons show ?thesis by simp
  next
    case (Some p)
    with Cons.prems obtain e' es' where dw: "dropWhile is_log xs = e' # es'" and e': "e' = OsRemoved p"
      by (auto split: list.splits)
    from dw have "dropWhile is_log (xs @ ys) = e' # es' @ ys"
      by (rule dropWhile_append_Cons)
    with Some Cons e' show ?thesis by simp
  qed
qed

lemma stored_subseq_attempts: "subseq (stored_files evs) (upload_attempts evs)"
proof (induction evs)
  case Nil
  show ?case by (simp add: stored_files_simps upload_attempts_simps)
next
  case (Cons e evs)
  then show ?case
    by (cases e) (auto simp: stored_files_simps upload_attempts_simps)
qed

section \<open>The upload worker: one file\<close>

text \<open>What the \<^verbatim>\<open>try\<close> of lines 181--197 does, by the answer of the client.\<close>

lemma upload_one_stored:
  assumes "filepath \<in> disk w" and "client filepath = None"
  shows "upload_one cfg client filepath w =
           ([Log (Uploading filepath (s3_bucket cfg) (s3_key_of (s3_prefix cfg) filepath)),
             S3Stored filepath (s3_bucket cfg) (s3_key_of (s3_prefix cfg) filepath),
             OsRemoved filepath, Log (UploadedAndRemoved filepath)],
            w\<lparr>s3_objects := s3_objects w @ [(s3_bucket cfg, s3_key_of (s3_prefix cfg) filepath)],
              disk := disk w - {filepath}\<rparr>,
            Normal)"
  using assms by (simp add: upload_one_def upload_file_def os_remove_def Let_def)

lemma upload_one_raised:
  assumes "filepath \<in> disk w" and "client filepath = Some x"
  shows "upload_one cfg client filepath w =
           (if is_Exception x
            then ([Log (Uploading filepath (s3_bucket cfg) (s3_key_of (s3_prefix cfg) filepath)),
                   S3Raised filepath (s3_bucket cfg) (s3_key_of (s3_prefix cfg) filepath) x,
                   Log (FailedToUpload filepath x)], w, Normal)
            else ([Log (Uploading filepath (s3_bucket cfg) (s3_key_of (s3_prefix cfg) filepath)),
                   S3Raised filepath (s3_bucket cfg) (s3_key_of (s3_prefix cfg) filepath) x],
                  w, Raise x))"
  using assms by (simp add: upload_one_def upload_file_def Let_def)


lemma upload_one_cases:
  assumes "filepath \<in> disk w"
  obtains (stored) "client filepath = None"
      "upload_one cfg client filepath w =
         ([Log (Uploading filepath (s3_bucket cfg) (s3_key_of (s3_prefix cfg) filepath)),
           S3Stored filepath (s3_bucket cfg) (s3_key_of (s3_prefix cfg) filepath),
           OsRemoved filepath, Log (UploadedAndRemoved filepath)],
          w\<lparr>s3_objects := s3_objects w @ [(s3_bucket cfg, s3_key_of (s3_prefix cfg) filepath)],
            disk := disk w - {filepath}\<rparr>,
          Normal)"
  | (failed) x where "client filepath = Some x" "is_Exception x"
      "upload_one cfg client filepath w =
         ([Log (Uploading filepath (s3_bucket cfg) (s3_key_of (s3_prefix cfg) filepath)),
           S3Raised filepath (s3_bucket cfg) (s3_key_of (s3_prefix cfg) filepath) x,
           Log (FailedToUpload filepath x)], w, Normal)"
  | (passed) x where "client filepath = Some x" "\<not> is_Exception x"
      "upload_one cfg client filepath w =
         ([Log (Uploading filepath (s3_bucket cfg) (s3_key_of (s3_prefix cfg) filepath)),
           S3Raised filepath (s3_bucket cfg) (s3_key_of (s3_prefix cfg) filepath) x],
          w, Raise x)"
proof (cases "client filepath")
  case None
  with assms stored upload_one_stored[where client = client and filepath = filepath
      and cfg = cfg and w = w] show ?thesis by blast
next
  case (Some x)
  note r = upload_one_raised[where client = client and filepath = filepath and x = x
      and cfg = cfg and w = w]
  from assms Some failed passed r show ?thesis
    by (cases "is_Exception x") auto
qed

section \<open>The upload worker: one batch\<close>

text \<open>
  How the \<^verbatim>\<open>for\<close> loop of line 176 deals with the first file of a batch, by what
  happens to the file: it is missing and skipped, it is stored and
  removed, its upload fails and is logged, or its upload raises past the handler.
\<close>

lemma upload_files_step:
  assumes "upload_files cfg c (p # fs) w = (evs, w', r)"
  obtains (skip) evs' where "p \<notin> disk w" "upload_files cfg c fs w = (evs', w', r)"
      "evs = Log (SkippingMissing p) # evs'"
  | (stored) evs' where "p \<in> disk w" "c p = None"
      "upload_files cfg c fs
         (w\<lparr>s3_objects := s3_objects w @ [(s3_bucket cfg, s3_key_of (s3_prefix cfg) p)],
            disk := disk w - {p}\<rparr>) = (evs', w', r)"
      "evs = [Log (Uploading p (s3_bucket cfg) (s3_key_of (s3_prefix cfg) p)),
              S3Stored p (s3_bucket cfg) (s3_key_of (s3_prefix cfg) p),
              OsRemoved p, Log (UploadedAndRemoved p)] @ evs'"
  | (failed) x evs' where "p \<in> disk w" "c p = Some x" "is_Exception x"
      "upload_files cfg c fs w = (evs', w', r)"
      "evs = [Log (Uploading p (s3_bucket cfg) (s3_key_of (s3_prefix cfg) p)),
              S3Raised p (s3_bucket cfg) (s3_key_of (s3_prefix cfg) p) x,
              Log (FailedToUpload p x)] @ evs'"
  | (passed) x where "p \<in> disk w" "c p = Some x" "\<not> is_Exception x" "w' = w" "r = Raise x"
      "evs = [Log (Uploading p (s3_bucket cfg) (s3_key_of (s3_prefix cfg) p)),
              S3Raised p (s3_bucket cfg) (s3_key_of (s3_prefix cfg) p) x]"
  using assms
proof (cases rule: upload_files_Cons_cases)
  case (skip evs')
  then show ?thesis using that(1) by blast
next
  case (sent ev1 w1 evs')
  from sent(1) show ?thesis
  proof (cases rule: upload_one_cases[where client = c and cfg = cfg])
    case stored
    from stored(2) sent(2) have "ev1 = [Log (Uploading p (s3_bucket cfg) (s3_key_of (s3_prefix cfg) p)),
        S3Stored p (s3_bucket cfg) (s3_key_of (s3_prefix cfg) p), OsRemoved p,
        Log (UploadedAndRemoved p)]"
      and "w1 = w\<lparr>s3_objects := s3_objects w @ [(s3_bucket cfg, s3_key_of (s3_prefix cfg) p)],
        disk := disk w - {p}\<rparr>"
      by simp_all
    with sent(3,4) show ?thesis
      by (intro that(2)[OF sent(1) stored(1)]) simp_all
  next
    case (failed x)
    from failed(3) sent(2) have "ev1 = [Log (Uploading p (s3_bucket cfg) (s3_key_of (s3_prefix cfg) p)),
        S3Raised p (s3_bucket cfg) (s3_key_of (s3_prefix cfg) p) x, Log (FailedToUpload p x)]"
      and "w1 = w"
      by simp_all
    with sent(3,4) show ?thesis
      by (intro that(3)[OF sent(1) failed(1,2)]) simp_all
  next
    case (passed x)
    from passed(3) sent(2) show ?thesis by simp
  qed
next
  case abort
  from abort(1) show ?thesis
  proof (cases rule: upload_one_cases[where client = c and cfg = cfg])
    case stored
    from stored(2) abort(2,3) show ?thesis by simp
  next
    case (failed x)
    from failed(3) abort(2,3) show ?thesis by simp
  next
    case (passed x)
    from passed(3) abort(2) have "evs = [Log (Uploading p (s3_bucket cfg) (s3_key_of (s3_prefix cfg) p)),
        S3Raised p (s3_bucket cfg) (s3_key_of (s3_prefix cfg) p) x]" "w' = w" "r = Raise x"
      by simp_all
    then show ?thesis
      by (intro that(4)[OF abort(1) passed(1,2)]) simp_all
  qed
qed


lemma upload_files_attempts:
  "upload_files cfg c fs w = (evs, w', r) \<Longrightarrow> subseq (upload_attempts evs) fs"
proof (induction fs arbitrary: w evs)
  case Nil
  then show ?case by (simp add: upload_attempts_simps)
next
  case (Cons p fs)
  from Cons.prems show ?case
  proof (cases rule: upload_files_step)
    case (skip evs')
    with Cons.IH show ?thesis by (auto simp: upload_attempts_simps)
  next
    case (stored evs')
    with Cons.IH show ?thesis by (auto simp: upload_attempts_simps)
  next
    case (failed x evs')
    with Cons.IH show ?thesis by (auto simp: upload_attempts_simps)
  next
    case (passed x)
    then show ?thesis by (simp add: upload_attempts_simps)
  qed
qed

lemma upload_files_disk:
  "upload_files cfg c fs w = (evs, w', r) \<Longrightarrow>
     disk w' = disk w - set (stored_files evs) \<and> set (stored_files evs) \<subseteq> disk w \<and>
     distinct (stored_files evs)"
proof (induction fs arbitrary: w evs)
  case Nil
  then show ?case by (simp add: stored_files_simps)
next
  case (Cons p fs)
  from Cons.prems show ?case
  proof (cases rule: upload_files_step)
    case (skip evs')
    with Cons.IH[OF skip(2)] show ?thesis by (simp add: stored_files_simps)
  next
    case (stored evs')
    from Cons.IH[OF stored(3)] stored(1,4) show ?thesis
      by (auto simp: stored_files_simps)
  next
    case (failed x evs')
    with Cons.IH[OF failed(4)] show ?thesis by (simp add: stored_files_simps)
  next
    case (passed x)
    then show ?thesis by (simp add: stored_files_simps)
  qed
qed

lemma upload_files_removed_after_store:
  "upload_files cfg c fs w = (evs, w', r) \<Longrightarrow> removed_after_store evs"
proof (induction fs arbitrary: w evs)
  case Nil
  then show ?case by simp
next
  case (Cons p fs)
  from Cons.prems show ?case
  proof (cases rule: upload_files_step)
    case (skip evs')
    with Cons.IH[OF skip(2)] show ?thesis by simp
  next
    case (stored evs')
    with Cons.IH[OF stored(3)] show ?thesis by simp
  next
    case (failed x evs')
    with Cons.IH[OF failed(4)] show ?thesis by simp
  next
    case (passed x)
    then show ?thesis by simp
  qed
qed

lemma upload_files_world:
  "upload_files cfg c fs w = (evs, w', r) \<Longrightarrow>
     video_queue w' = video_queue w \<and>
     s3_objects w' =
       s3_objects w @ map (\<lambda>p. (s3_bucket cfg, s3_key_of (s3_prefix cfg) p)) (stored_files evs)"
proof (induction fs arbitrary: w evs)
  case Nil
  then show ?case by (simp add: stored_files_simps)
next
  case (Cons p fs)
  from Cons.prems show ?case
  proof (cases rule: upload_files_step)
    case (skip evs')
    with Cons.IH[OF skip(2)] show ?thesis by (simp add: stored_files_simps)
  next
    case (stored evs')
    with Cons.IH[OF stored(3)] show ?thesis by (simp add: stored_files_simps)
  next
    case (failed x evs')
    with Cons.IH[OF failed(4)] show ?thesis by (simp add: stored_files_simps)
  next
    case (passed x)
    then show ?thesis by (simp add: stored_files_simps)
  qed
qed

text \<open>
  Every upload that raises an \<^verbatim>\<open>Exception\<close> is logged, and as long as nothing else is
  raised every file of the batch is dealt with, in the order of the batch.
\<close>

lemma upload_files_failure_logged:
  "upload_files cfg c fs w = (evs, w', r) \<Longrightarrow> S3Raised p b k x \<in> set evs \<Longrightarrow> is_Exception x \<Longrightarrow>
     Log (FailedToUpload p x) \<in> set evs"
proof (induction fs arbitrary: w evs)
  case Nil
  then show ?case by simp
next
  case (Cons q fs)
  from Cons.prems(1) show ?case
  proof (cases rule: upload_files_step)
    case (skip evs')
    with Cons.IH[OF skip(2)] Cons.prems(2,3) show ?thesis by auto
  next
    case (stored evs')
    with Cons.IH[OF stored(3)] Cons.prems(2,3) show ?thesis by auto
  next
    case (failed y evs')
    with Cons.IH[OF failed(4)] Cons.prems(2,3) show ?thesis by auto
  next
    case (passed y)
    with Cons.prems(2,3) show ?thesis by auto
  qed
qed

lemma upload_files_visits:
  "upload_files cfg c fs w = (evs, w', r) \<Longrightarrow>
     r \<noteq> Blocked \<and> (r = Normal \<longrightarrow> batch_visits evs = fs) \<and>
     ((\<forall>p\<in>set fs. \<forall>x. c p = Some x \<longrightarrow> is_Exception x) \<longrightarrow> r = Normal)"
proof (induction fs arbitrary: w evs)
  case Nil
  then show ?case by (simp add: batch_visits_simps)
next
  case (Cons q fs)
  from Cons.prems(1) show ?case
  proof (cases rule: upload_files_step)
    case (skip evs')
    with Cons.IH[OF skip(2)] show ?thesis by (simp add: batch_visits_simps)
  next
    case (stored evs')
    with Cons.IH[OF stored(3)] show ?thesis by (simp add: batch_visits_simps)
  next
    case (failed y evs')
    with Cons.IH[OF failed(4)] show ?thesis by (simp add: batch_visits_simps)
  next
    case (passed y)
    then show ?thesis by (auto simp: batch_visits_simps)
  qed
qed


section \<open>The upload worker: one iteration and the loop\<close>

lemma upload_iteration_cases:
  assumes "upload_iteration cfg e u = (evs, u', r)"
  obtains (idle) "\<not> cycle_due e u" "evs = [Sleep 5]" "r = Normal"
      "u' = \<lparr>wld = (wld u)\<lparr>video_queue := []\<rparr>, files_to_upload = pending u,
             last_upload_time = last_upload_time u\<rparr>"
  | (cycle) evs1 w1 where "cycle_due e u"
      "upload_files cfg (u_client e) (pending u) ((wld u)\<lparr>video_queue := []\<rparr>) = (evs1, w1, Normal)"
      "evs = Log (StartingUpload (length (pending u))) # evs1 @ [Sleep 5]" "r = Normal"
      "u' = \<lparr>wld = w1, files_to_upload = [], last_upload_time = u_now e\<rparr>"
  | (broken) evs1 w1 where "cycle_due e u" "r \<noteq> Normal"
      "upload_files cfg (u_client e) (pending u) ((wld u)\<lparr>video_queue := []\<rparr>) = (evs1, w1, r)"
      "evs = Log (StartingUpload (length (pending u))) # evs1"
      "u' = \<lparr>wld = w1, files_to_upload = pending u, last_upload_time = last_upload_time u\<rparr>"
proof (cases "cycle_due e u")
  case False
  from upload_iteration_idle[OF False, of cfg] assms idle[OF False] show ?thesis
    by (simp add: pending_def)
next
  case True
  obtain evs1 w1 r1 where up:
    "upload_files cfg (u_client e) (files_to_upload u @ video_queue (wld u))
       ((wld u)\<lparr>video_queue := []\<rparr>) = (evs1, w1, r1)"
    using prod_cases3 by blast
  note it = upload_iteration_cycle[OF True up]
  show ?thesis
  proof (cases "r1 = Normal")
    case N: True
    with it assms have "evs = Log (StartingUpload (length (pending u))) # evs1 @ [Sleep 5]"
        "r = Normal" "u' = \<lparr>wld = w1, files_to_upload = [], last_upload_time = u_now e\<rparr>"
      by (simp_all add: pending_def)
    with cycle[OF True] up N show ?thesis by (simp add: pending_def)
  next
    case False
    with it assms have "evs = Log (StartingUpload (length (pending u))) # evs1" "r = r1"
        "u' = \<lparr>wld = w1, files_to_upload = pending u, last_upload_time = last_upload_time u\<rparr>"
      by (simp_all add: pending_def)
    with broken[OF True] up False show ?thesis by (simp add: pending_def)
  qed
qed

lemma upload_iteration_attempts:
  assumes "upload_iteration cfg e u = (evs, u', r)"
  shows "subseq (upload_attempts evs) (pending u)"
    and "r = Normal \<Longrightarrow> subseq (upload_attempts evs @ pending u') (pending u)"
  using assms
proof (atomize (full), cases rule: upload_iteration_cases)
  case idle
  then show "subseq (upload_attempts evs) (pending u) \<and>
      (r = Normal \<longrightarrow> subseq (upload_attempts evs @ pending u') (pending u))"
    by (simp add: upload_attempts_simps pending_def)
next
  case (cycle evs1 w1)
  from upload_files_attempts[OF cycle(2)] upload_files_world[OF cycle(2)] cycle(3,5)
  show "subseq (upload_attempts evs) (pending u) \<and>
      (r = Normal \<longrightarrow> subseq (upload_attempts evs @ pending u') (pending u))"
    by (simp add: upload_attempts_simps pending_def)
next
  case (broken evs1 w1)
  from upload_files_attempts[OF broken(3)] broken(2,4)
  show "subseq (upload_attempts evs) (pending u) \<and>
      (r = Normal \<longrightarrow> subseq (upload_attempts evs @ pending u') (pending u))"
    by (simp add: upload_attempts_simps)
qed

lemma pending_producer_acts:
  "pending (u\<lparr>wld := producer_acts e (wld u)\<rparr>) = pending u @ u_puts e"
  by (simp add: pending_def producer_acts_def)

lemma upload_loop_Cons_cases:
  assumes "upload_loop cfg (e # es) u = (evs, u', r)"
  obtains (stop) "\<not> u_running e" "evs = [Log UploadLoopEnded]" "r = Ended"
      "u' = u\<lparr>wld := producer_acts e (wld u)\<rparr>"
  | (go) evs1 u1 evs2 where "u_running e"
      "upload_iteration cfg e (u\<lparr>wld := producer_acts e (wld u)\<rparr>) = (evs1, u1, Normal)"
      "upload_loop cfg es u1 = (evs2, u', r)" "evs = evs1 @ evs2"
  | (die) x where "u_running e" "r = Died x"
      "upload_iteration cfg e (u\<lparr>wld := producer_acts e (wld u)\<rparr>) = (evs, u', Raise x)"
  | (block) "u_running e" "r = Unfinished"
      "upload_iteration cfg e (u\<lparr>wld := producer_acts e (wld u)\<rparr>) = (evs, u', Blocked)"
proof (cases "u_running e")
  case False
  with assms stop show ?thesis by (simp add: Let_def)
next
  case True
  obtain evs1 u1 r1 where it:
    "upload_iteration cfg e (u\<lparr>wld := producer_acts e (wld u)\<rparr>) = (evs1, u1, r1)"
    using prod_cases3 by blast
  show ?thesis
  proof (cases r1)
    case Normal
    with assms True it go show ?thesis by (auto simp: Let_def split: prod.splits)
  next
    case (Raise x)
    with assms True it die show ?thesis by (auto simp: Let_def)
  next
    case Blocked
    with assms True it block show ?thesis by (auto simp: Let_def)
  qed
qed

lemma upload_loop_attempts:
  "upload_loop cfg envs u = (evs, u', r) \<Longrightarrow>
     subseq (upload_attempts evs) (pending u @ concat (map u_puts envs))"
proof (induction envs arbitrary: u evs)
  case Nil
  then show ?case by (simp add: upload_attempts_simps)
next
  case (Cons e es)
  let ?u0 = "u\<lparr>wld := producer_acts e (wld u)\<rparr>"
  let ?rest = "concat (map u_puts es)"
  from Cons.prems show ?case
  proof (cases rule: upload_loop_Cons_cases)
    case stop
    then show ?thesis by (simp add: upload_attempts_simps)
  next
    case (go evs1 u1 evs2)
    from Cons.IH[OF go(3)] have "subseq (upload_attempts evs2) (pending u1 @ ?rest)" .
    then have "subseq (upload_attempts evs1 @ upload_attempts evs2)
        (upload_attempts evs1 @ pending u1 @ ?rest)"
      by (rule subseq_append'[THEN iffD2])
    then have a: "subseq (upload_attempts evs1 @ upload_attempts evs2)
        ((upload_attempts evs1 @ pending u1) @ ?rest)"
      by (simp only: append_assoc)
    have b: "subseq ((upload_attempts evs1 @ pending u1) @ ?rest) (pending ?u0 @ ?rest)"
      by (rule list_emb_append_mono[OF upload_iteration_attempts(2)[OF go(2) refl]
            subseq_order.order_refl])
    from a b have "subseq (upload_attempts evs1 @ upload_attempts evs2) (pending ?u0 @ ?rest)"
      by (rule subseq_order.order_trans)
    with go(4) show ?thesis
      by (simp add: upload_attempts_simps pending_producer_acts)
  next
    case (die x)
    from upload_iteration_attempts(1)[OF die(3)]
    have "subseq (upload_attempts evs) (pending ?u0 @ ?rest)"
      by (rule subseq_rev_drop_many)
    then show ?thesis by (simp add: pending_producer_acts)
  next
    case block
    from upload_iteration_attempts(1)[OF block(3)]
    have "subseq (upload_attempts evs) (pending ?u0 @ ?rest)"
      by (rule subseq_rev_drop_many)
    then show ?thesis by (simp add: pending_producer_acts)
  qed
qed

section \<open>The upload worker: what a cycle leaves behind\<close>

lemma upload_iteration_stored:
  assumes "upload_iteration cfg e u = (evs, u', r)"
  shows "removed_after_store evs \<and> distinct (stored_files evs) \<and>
         disk (wld u') = disk (wld u) - set (stored_files evs) \<and>
         (r = Normal \<longrightarrow> set (stored_files evs) \<inter> set (pending u') = {})"
  using assms
proof (cases rule: upload_iteration_cases)
  case idle
  then show ?thesis by (simp add: stored_files_simps)
next
  case (cycle evs1 w1)
  from upload_files_removed_after_store[OF cycle(2)]
  have "removed_after_store (evs1 @ [Sleep 5])"
    by (rule removed_after_store_append) simp
  with upload_files_disk[OF cycle(2)] upload_files_world[OF cycle(2)] cycle(3,5)
  show ?thesis by (simp add: stored_files_simps pending_def)
next
  case (broken evs1 w1)
  with upload_files_removed_after_store[OF broken(3)] upload_files_disk[OF broken(3)]
  show ?thesis by (simp add: stored_files_simps)
qed

lemma subseq_trans: "subseq xs ys \<Longrightarrow> subseq ys zs \<Longrightarrow> subseq xs zs"
  by (rule subseq_order.order_trans)

lemma upload_loop_stored:
  assumes "upload_loop cfg envs u = (evs, u', r)"
  shows "subseq (stored_files evs) (pending u @ concat (map u_puts envs))"
  using stored_subseq_attempts upload_loop_attempts[OF assms] by (rule subseq_trans)

lemma upload_loop_removed_after_store:
  "upload_loop cfg envs u = (evs, u', r) \<Longrightarrow> removed_after_store evs"
proof (induction envs arbitrary: u evs)
  case Nil
  then show ?case by simp
next
  case (Cons e es)
  from Cons.prems show ?case
  proof (cases rule: upload_loop_Cons_cases)
    case stop
    then show ?thesis by simp
  next
    case (go evs1 u1 evs2)
    from upload_iteration_stored[OF go(2)] Cons.IH[OF go(3)] go(4) show ?thesis
      by (simp add: removed_after_store_append)
  next
    case (die x)
    with upload_iteration_stored[OF die(3)] show ?thesis by simp
  next
    case block
    with upload_iteration_stored[OF block(3)] show ?thesis by simp
  qed
qed

text \<open>The loop leaves only at its head, or by an exception the handler does not catch.\<close>

lemma upload_iteration_flow:
  assumes "upload_iteration cfg e u = (evs, u', r)"
  shows "r \<noteq> Blocked \<and> (exceptions_only (u_client e) \<longrightarrow> r = Normal)"
  using assms
proof (cases rule: upload_iteration_cases)
  case idle
  then show ?thesis by simp
next
  case (cycle evs1 w1)
  then show ?thesis by simp
next
  case (broken evs1 w1)
  with upload_files_visits[OF broken(3)] show ?thesis
    by (auto simp: exceptions_only_def)
qed

lemma upload_loop_survives:
  "upload_loop cfg envs u = (evs, u', r) \<Longrightarrow> \<forall>e\<in>set envs. exceptions_only (u_client e) \<Longrightarrow>
     (\<forall>x. r \<noteq> Died x) \<and> (r = Ended \<longleftrightarrow> (\<exists>e\<in>set envs. \<not> u_running e))"
proof (induction envs arbitrary: u evs)
  case Nil
  then show ?case by simp
next
  case (Cons e es)
  from Cons.prems(1) show ?case
  proof (cases rule: upload_loop_Cons_cases)
    case stop
    then show ?thesis by simp
  next
    case (go evs1 u1 evs2)
    with Cons.IH[OF go(3)] Cons.prems(2) show ?thesis by simp
  next
    case (die x)
    with upload_iteration_flow[OF die(3)] Cons.prems(2) show ?thesis by simp
  next
    case block
    with upload_iteration_flow[OF block(3)] show ?thesis by simp
  qed
qed


section \<open>The capture worker\<close>

lemma closed_before_handover_append:
  "closed_before_handover cl (xs @ ys) \<longleftrightarrow>
     closed_before_handover cl xs \<and> closed_before_handover (foldl closed_after cl xs) ys"
  by (induction xs arbitrary: cl) auto

lemma capture_try_closed: "closed_before_handover cl (fst (capture_try filepath e w))"
  by (simp add: capture_try_def Let_def handed_over_def split: option.splits)

lemma capture_try_raise:
  assumes "capture_try filepath e w = (evs, w', Raise x)"
  shows "video_queue w' = video_queue w \<and> s3_objects w' = s3_objects w \<and>
         queue_puts evs = [] \<and> removed_files evs = [] \<and>
         (disk w' = disk w \<or> disk w' = insert filepath (disk w)) \<and>
         (EncoderStart filepath \<in> set evs \<longrightarrow> filepath \<in> disk w') \<and>
         (\<exists>c. c_fault e = Some (c, x))"
  using assms
  by (auto simp: capture_try_def Let_def raises_at_def queue_puts_simps removed_files_simps
      split: option.splits if_splits)


lemma capture_iteration_handled:
  assumes "capture_try (capture_filepath storage_path (c_now e)) e w = (evs0, w0, Raise x)"
    and "is_Exception x"
  shows "capture_iteration storage_path e w =
           (case c_restart_fault e of
              None \<Rightarrow>
                (evs0 @ [Log (CaptureError x), Sleep 1, CameraStop, CameraConfigure, CameraStart],
                 w0, Normal)
            | Some y \<Rightarrow>
                if is_Exception y
                then (evs0 @ [Log (CaptureError x), Sleep 1, Log (RestartFailed y)], w0, Normal)
                else (evs0 @ [Log (CaptureError x), Sleep 1], w0, Raise y))"
  using assms by (simp add: capture_iteration_def Let_def split: option.splits)

lemma capture_iteration_unhandled:
  assumes "capture_try (capture_filepath storage_path (c_now e)) e w = (evs0, w0, r)"
    and "\<And>x. r = Raise x \<Longrightarrow> \<not> is_Exception x"
  shows "capture_iteration storage_path e w = (evs0, w0, r)"
  using assms by (cases r) (simp_all add: capture_iteration_def Let_def)

lemma capture_try_complete:
  assumes "c_fault e = None" and "wait_for_chunk (c_start_time e) (c_polls e) = Some n"
  shows "capture_try filepath e w =
           ([Log (StartingChunk filepath), EncoderStart filepath, Sleep (real n / 10),
             EncoderStop filepath, CameraStop, CameraStart, QueuePut filepath,
             Log (FinishedChunk filepath)],
            w\<lparr>disk := insert filepath (disk w), video_queue := video_queue w @ [filepath]\<rparr>,
            Normal)"
  using assms by (simp add: capture_try_def raises_at_def Let_def)

lemma capture_iteration_closed:
  "closed_before_handover cl (fst (capture_iteration storage_path e w))"
proof -
  obtain evs0 w0 r where t: "capture_try (capture_filepath storage_path (c_now e)) e w = (evs0, w0, r)"
    using prod_cases3 by blast
  with capture_try_closed[of cl "capture_filepath storage_path (c_now e)" e w]
  have c0: "closed_before_handover cl evs0" by simp
  show ?thesis
  proof (cases "\<exists>x. r = Raise x \<and> is_Exception x")
    case True
    then obtain x where "r = Raise x" "is_Exception x" by blast
    with t capture_iteration_handled[of storage_path e w evs0 w0 x] c0 show ?thesis
      by (simp add: closed_before_handover_append handed_over_def split: option.splits)
  next
    case False
    with capture_iteration_unhandled[OF t] c0 show ?thesis by auto
  qed
qed

lemma capture_iteration_flow:
  assumes "capture_iteration storage_path e w = (evs, w', Raise x)"
  shows "\<not> faults_caught e"
proof -
  obtain evs0 w0 r where t: "capture_try (capture_filepath storage_path (c_now e)) e w = (evs0, w0, r)"
    using prod_cases3 by blast
  show ?thesis
  proof (cases "\<exists>y. r = Raise y \<and> is_Exception y")
    case True
    then obtain y where "r = Raise y" "is_Exception y" by blast
    with t capture_iteration_handled[of storage_path e w evs0 w0 y] assms show ?thesis
      by (auto simp: faults_caught_def split: option.splits if_splits)
  next
    case False
    with capture_iteration_unhandled[OF t] assms have r: "r = Raise x" "\<not> is_Exception x" by auto
    with capture_try_raise[of "capture_filepath storage_path (c_now e)" e w evs0 w0 x] t
    show ?thesis by (auto simp: faults_caught_def)
  qed
qed

lemma capture_loop_Cons_cases:
  assumes "capture_loop storage_path (e # es) w = (evs, w', r)"
  obtains (stop) "\<not> c_running e" "evs = []" "w' = w" "r = Ended"
  | (go) evs1 w1 evs2 where "c_running e"
      "capture_iteration storage_path e w = (evs1, w1, Normal)"
      "capture_loop storage_path es w1 = (evs2, w', r)" "evs = evs1 @ evs2"
  | (die) x where "c_running e" "r = Died x"
      "capture_iteration storage_path e w = (evs, w', Raise x)"
  | (block) "c_running e" "r = Unfinished"
      "capture_iteration storage_path e w = (evs, w', Blocked)"
proof (cases "c_running e")
  case False
  with assms stop show ?thesis by simp
next
  case True
  obtain evs1 w1 r1 where it: "capture_iteration storage_path e w = (evs1, w1, r1)"
    using prod_cases3 by blast
  show ?thesis
  proof (cases r1)
    case Normal
    with assms True it go show ?thesis by (auto split: prod.splits)
  next
    case (Raise x)
    with assms True it die show ?thesis by auto
  next
    case Blocked
    with assms True it block show ?thesis by auto
  qed
qed

lemma capture_loop_closed:
  "closed_before_handover cl (fst (capture_loop storage_path envs w))"
proof (induction envs arbitrary: cl w)
  case Nil
  show ?case by simp
next
  case (Cons e es)
  obtain evs w' r where l: "capture_loop storage_path (e # es) w = (evs, w', r)"
    using prod_cases3 by blast
  from l have "closed_before_handover cl evs"
  proof (cases rule: capture_loop_Cons_cases)
    case stop
    then show ?thesis by simp
  next
    case (go evs1 w1 evs2)
    with capture_iteration_closed[of cl storage_path e w]
      Cons.IH[of "foldl closed_after cl evs1" w1]
    show ?thesis by (simp add: closed_before_handover_append)
  next
    case (die x)
    with capture_iteration_closed[of cl storage_path e w] show ?thesis by simp
  next
    case block
    with capture_iteration_closed[of cl storage_path e w] show ?thesis by simp
  qed
  with l show ?case by simp
qed

lemma capture_loop_survives:
  "capture_loop storage_path envs w = (evs, w', r) \<Longrightarrow> \<forall>e\<in>set envs. faults_caught e \<Longrightarrow>
     (\<forall>x. r \<noteq> Died x) \<and> (r = Ended \<longrightarrow> (\<exists>e\<in>set envs. \<not> c_running e))"
proof (induction envs arbitrary: w evs)
  case Nil
  then show ?case by simp
next
  case (Cons e es)
  from Cons.prems(1) show ?case
  proof (cases rule: capture_loop_Cons_cases)
    case stop
    then show ?thesis by simp
  next
    case (go evs1 w1 evs2)
    with Cons.IH[OF go(3)] Cons.prems(2) show ?thesis by simp
  next
    case (die x)
    with capture_iteration_flow[OF die(3)] Cons.prems(2) show ?thesis by simp
  next
    case block
    then show ?thesis by simp
  qed
qed


section \<open>The sample inputs, evaluated\<close>

lemma capture_filepath_noon:
  "capture_filepath ''videos'' noon = ''videos/video_20240102_120000.h264''"
  by (simp add: capture_filepath_def path_join_def VIDEO_FORMAT_def strftime_noon)

lemma seq_zero: "zfill 4 (decimal 0) = ''0000''"
  by (simp add: zfill_def decimal.simps digit_def numeral_3_eq_3)

lemma chunk_filename_noon_0:
  "chunk_filename noon 0 = ''/tmp/video_chunks/chunk_20240102_120000_0000.mp4''"
  by (simp add: chunk_filename_def path_join_def temp_dir_def strftime_noon seq_zero)

lemma chunk_key_noon_0:
  "chunk_key ''/tmp/video_chunks/chunk_20240102_120000_0000.mp4'' =
     ''video_chunks/chunk_20240102_120000_0000.mp4''"
  by (simp add: chunk_key_def path_name_def)

lemma path_name_noon_0:
  "path_name ''/tmp/video_chunks/chunk_20240102_120000_0000.mp4'' =
     ''chunk_20240102_120000_0000.mp4''"
  by (simp add: path_name_def)

lemma wait_steady: "wait_for_chunk (c_start_time steady) (c_polls steady) = Some 1"
  by (simp add: steady_def VIDEO_CHUNK_DURATION_def)

lemma stop_fails_iteration:
  "capture_iteration ''videos'' stop_fails empty_world =
     ([Log (StartingChunk ''videos/video_20240102_120000.h264''),
       EncoderStart ''videos/video_20240102_120000.h264'', Sleep (1 / 10),
       Log (CaptureError (Exc ''encoder error'')), Sleep 1,
       CameraStop, CameraConfigure, CameraStart],
      \<lparr>disk = {''videos/video_20240102_120000.h264''}, video_queue = [], s3_objects = []\<rparr>,
      Normal)"
  by (simp add: capture_iteration_def capture_try_def raises_at_def Let_def stop_fails_def
      steady_def VIDEO_CHUNK_DURATION_def capture_filepath_noon empty_world_def)

lemma save_one_frame_failing_upload:
  "save True 30 (\<lambda>p. Some (Exc ''no network'')) ''bucket'' [Frame noon, NoFrame] empty_world =
     ([WriterOpened ''/tmp/video_chunks/chunk_20240102_120000_0000.mp4'',
       WriterReleased ''/tmp/video_chunks/chunk_20240102_120000_0000.mp4'',
       S3Raised ''/tmp/video_chunks/chunk_20240102_120000_0000.mp4'' ''bucket''
         ''video_chunks/chunk_20240102_120000_0000.mp4'' (Exc ''no network''),
       Log (FailedToUpload ''chunk_20240102_120000_0000.mp4'' (Exc ''no network'')),
       OsRemoved ''/tmp/video_chunks/chunk_20240102_120000_0000.mp4'',
       CapReleased],
      empty_world, Ended)"
  by (simp add: save_def save_init_def rotate_def save_finally_def upload_to_s3_def
      upload_file_def os_remove_def Let_def chunk_filename_noon_0 chunk_key_noon_0
      path_name_noon_0 empty_world_def)


lemma stop_fails_try:
  "capture_try (capture_filepath ''videos'' (c_now stop_fails)) stop_fails empty_world =
     ([Log (StartingChunk ''videos/video_20240102_120000.h264''),
       EncoderStart ''videos/video_20240102_120000.h264'', Sleep (1 / 10)],
      \<lparr>disk = {''videos/video_20240102_120000.h264''}, video_queue = [], s3_objects = []\<rparr>,
      Raise (Exc ''encoder error''))"
  by (simp add: capture_try_def raises_at_def Let_def stop_fails_def
      steady_def VIDEO_CHUNK_DURATION_def capture_filepath_noon empty_world_def)

section \<open>An error in the middle of a chunk\<close>

text \<open>
  Claim C4, as the code has it. When a call of the \<^verbatim>\<open>try\<close> block of a capture iteration
  raises an \<^verbatim>\<open>Exception\<close>, the chunk is not put into the queue, the error is logged,
  and after a sleep of one second the camera is stopped, configured and started again
  (a restart that raises an \<^verbatim>\<open>Exception\<close> is logged and given up); the loop then goes
  on with its next iteration, which starts a chunk of its own. Nothing is removed: a
  file the encoder has started stays on the disk.
\<close>

theorem capture_error_handling:
  assumes "capture_try (capture_filepath storage_path (c_now e)) e w = (evs0, w0, Raise x)"
    and "is_Exception x"
    and "capture_iteration storage_path e w = (evs, w', r)"
  shows "queue_puts evs = [] \<and> video_queue w' = video_queue w \<and>
         removed_files evs = [] \<and> disk w \<subseteq> disk w' \<and>
         (EncoderStart (capture_filepath storage_path (c_now e)) \<in> set evs \<longrightarrow>
            capture_filepath storage_path (c_now e) \<in> disk w') \<and>
         (c_restart_fault e = None \<longrightarrow>
            evs = evs0 @ [Log (CaptureError x), Sleep 1, CameraStop, CameraConfigure, CameraStart] \<and>
            r = Normal) \<and>
         (\<forall>y. c_restart_fault e = Some y \<and> is_Exception y \<longrightarrow>
            evs = evs0 @ [Log (CaptureError x), Sleep 1, Log (RestartFailed y)] \<and> r = Normal) \<and>
         (c_running e \<and> r = Normal \<longrightarrow>
            capture_loop storage_path (e # es) w =
              (evs @ fst (capture_loop storage_path es w'), snd (capture_loop storage_path es w')))"
proof -
  let ?fp = "capture_filepath storage_path (c_now e)"
  let ?logged = "evs0 @ [Log (CaptureError x), Sleep 1]"
  note t = capture_try_raise[OF assms(1)]
  note h = capture_iteration_handled[OF assms(1,2)]
  consider (restarted) "c_restart_fault e = None"
    | (caught) y where "c_restart_fault e = Some y" "is_Exception y"
    | (passed) y where "c_restart_fault e = Some y" "\<not> is_Exception y"
    by (cases "c_restart_fault e") auto
  then have shape: "w' = w0 \<and> (\<exists>rest. evs = ?logged @ rest \<and> queue_puts rest = [] \<and>
      removed_files rest = [] \<and> EncoderStart ?fp \<notin> set rest)"
  proof cases
    case restarted
    with h assms(3) have "w' = w0" "evs = ?logged @ [CameraStop, CameraConfigure, CameraStart]"
      by simp_all
    then show ?thesis by (simp add: queue_puts_simps removed_files_simps)
  next
    case (caught y)
    with h assms(3) have "w' = w0" "evs = ?logged @ [Log (RestartFailed y)]"
      by simp_all
    then show ?thesis by (simp add: queue_puts_simps removed_files_simps)
  next
    case (passed y)
    with h assms(3) have "w' = w0" "evs = ?logged @ []"
      by simp_all
    then show ?thesis by (simp add: queue_puts_simps removed_files_simps)
  qed
  then obtain rest where w': "w' = w0" and evs: "evs = ?logged @ rest"
    and rest: "queue_puts rest = []" "removed_files rest = []" "EncoderStart ?fp \<notin> set rest"
    by blast
  from t have t1: "queue_puts evs0 = []" and t2: "removed_files evs0 = []"
    and t3: "video_queue w0 = video_queue w" and t4: "disk w \<subseteq> disk w0"
    and t5: "EncoderStart ?fp \<in> set evs0 \<longrightarrow> ?fp \<in> disk w0"
    by auto
  from evs rest t1 have q: "queue_puts evs = []"
    by (simp add: queue_puts_simps)
  from evs rest t2 have rm: "removed_files evs = []"
    by (simp add: removed_files_simps)
  from t3 w' have vq: "video_queue w' = video_queue w" by simp
  from t4 w' have dk: "disk w \<subseteq> disk w'" by simp
  have st: "EncoderStart ?fp \<in> set evs \<longrightarrow> ?fp \<in> disk w'"
  proof
    assume "EncoderStart ?fp \<in> set evs"
    with evs rest(3) have "EncoderStart ?fp \<in> set evs0" by auto
    with t5 w' show "?fp \<in> disk w'" by simp
  qed
  from h assms(3) have r1: "c_restart_fault e = None \<longrightarrow>
      evs = evs0 @ [Log (CaptureError x), Sleep 1, CameraStop, CameraConfigure, CameraStart] \<and>
      r = Normal" by auto
  from h assms(3) have r2: "\<forall>y. c_restart_fault e = Some y \<and> is_Exception y \<longrightarrow>
      evs = evs0 @ [Log (CaptureError x), Sleep 1, Log (RestartFailed y)] \<and> r = Normal" by auto
  from assms(3) have go: "c_running e \<and> r = Normal \<longrightarrow>
      capture_loop storage_path (e # es) w =
        (evs @ fst (capture_loop storage_path es w'), snd (capture_loop storage_path es w'))"
    by (simp split: prod.splits)
  from q vq rm dk st r1 r2 go show ?thesis by blast
qed

theorem capture_error_handling_witness:
  "is_Exception (Exc ''encoder error'') \<and>
   capture_iteration ''videos'' stop_fails empty_world =
     ([Log (StartingChunk ''videos/video_20240102_120000.h264''),
       EncoderStart ''videos/video_20240102_120000.h264'', Sleep (1 / 10),
       Log (CaptureError (Exc ''encoder error'')), Sleep 1,
       CameraStop, CameraConfigure, CameraStart],
      \<lparr>disk = {''videos/video_20240102_120000.h264''}, video_queue = [], s3_objects = []\<rparr>,
      Normal) \<and>
   queue_puts (fst (capture_iteration ''videos'' stop_fails empty_world)) = [] \<and>
   removed_files (fst (capture_iteration ''videos'' stop_fails empty_world)) = []"
proof -
  have x: "is_Exception (Exc ''encoder error'')" by simp
  have c: "c_now stop_fails = noon" by (simp add: stop_fails_def steady_def)
  note t = capture_error_handling[OF stop_fails_try x stop_fails_iteration[unfolded c[symmetric]]]
  from t have "queue_puts (fst (capture_iteration ''videos'' stop_fails empty_world)) = []"
    and "removed_files (fst (capture_iteration ''videos'' stop_fails empty_world)) = []"
    unfolding stop_fails_iteration by simp_all
  with x stop_fails_iteration show ?thesis by simp
qed

text \<open>
  Claim C4, as the specification states it, fails where it has the partial file
  discarded: when the encoder started at noon cannot be stopped, the error is logged and
  the camera restarted, and the file of the chunk is still on the disk.
\<close>

theorem partial_file_counterexample:
  "EncoderStart ''videos/video_20240102_120000.h264'' \<in>
     set (fst (capture_iteration ''videos'' stop_fails empty_world)) \<and>
   Log (CaptureError (Exc ''encoder error'')) \<in>
     set (fst (capture_iteration ''videos'' stop_fails empty_world)) \<and>
   ''videos/video_20240102_120000.h264'' \<in>
     disk (fst (snd (capture_iteration ''videos'' stop_fails empty_world)))"
  by (simp add: stop_fails_iteration)

section \<open>stream.py: one rotation\<close>

lemma rotate_cases:
  assumes "rotate client bucket d s w = (evs, s', w', r)"
  obtains (first) "current_file s = None"
      "evs = [WriterOpened (chunk_filename d (chunk_counter s))]"
      "s' = s\<lparr>current_file := Some (chunk_filename d (chunk_counter s)),
               chunk_counter := chunk_counter s + 1\<rparr>"
      "w' = w\<lparr>disk := insert (chunk_filename d (chunk_counter s)) (disk w)\<rparr>" "r = Normal"
  | (stored) old where "current_file s = Some old" "old \<in> disk w" "client old = None"
      "evs = [WriterReleased old, S3Stored old bucket (chunk_key old),
              Log (Uploaded (path_name old) bucket (chunk_key old)), OsRemoved old,
              WriterOpened (chunk_filename d (chunk_counter s))]"
      "s' = s\<lparr>current_file := Some (chunk_filename d (chunk_counter s)),
               chunk_counter := chunk_counter s + 1\<rparr>"
      "w' = w\<lparr>s3_objects := s3_objects w @ [(bucket, chunk_key old)],
               disk := insert (chunk_filename d (chunk_counter s)) (disk w - {old})\<rparr>"
      "r = Normal"
  | (failed) old x where "current_file s = Some old" "old \<in> disk w" "client old = Some x"
      "is_Exception x"
      "evs = [WriterReleased old, S3Raised old bucket (chunk_key old) x,
              Log (FailedToUpload (path_name old) x), OsRemoved old,
              WriterOpened (chunk_filename d (chunk_counter s))]"
      "s' = s\<lparr>current_file := Some (chunk_filename d (chunk_counter s)),
               chunk_counter := chunk_counter s + 1\<rparr>"
      "w' = w\<lparr>disk := insert (chunk_filename d (chunk_counter s)) (disk w - {old})\<rparr>"
      "r = Normal"
  | (passed) old x where "current_file s = Some old" "old \<in> disk w" "client old = Some x"
      "\<not> is_Exception x"
      "evs = [WriterReleased old, S3Raised old bucket (chunk_key old) x]"
      "s' = s" "w' = w" "r = Raise x"
  | (missing) old where "current_file s = Some old" "old \<notin> disk w"
      "evs = [WriterReleased old, S3Raised old bucket (chunk_key old) (Exc ''FileNotFoundError''),
              Log (FailedToUpload (path_name old) (Exc ''FileNotFoundError''))]"
      "s' = s" "w' = w" "r = Raise (Exc ''FileNotFoundError'')"
proof -
  let ?fn = "chunk_filename d (chunk_counter s)"
  let ?s' = "s\<lparr>current_file := Some ?fn, chunk_counter := chunk_counter s + 1\<rparr>"
  note defs = rotate_def upload_to_s3_def upload_file_def os_remove_def Let_def
  show ?thesis
  proof (cases "current_file s")
    case None
    with assms have "evs = [WriterOpened ?fn]" "s' = ?s'" "w' = w\<lparr>disk := insert ?fn (disk w)\<rparr>"
        "r = Normal"
      by (simp_all add: defs)
    with None show ?thesis by (intro first)
  next
    case (Some old)
    show ?thesis
    proof (cases "old \<in> disk w")
      case False
      with assms Some have
        "evs = [WriterReleased old, S3Raised old bucket (chunk_key old) (Exc ''FileNotFoundError''),
                Log (FailedToUpload (path_name old) (Exc ''FileNotFoundError''))]"
        "s' = s" "w' = w" "r = Raise (Exc ''FileNotFoundError'')"
        by (simp_all add: defs)
      with Some False show ?thesis by (intro missing)
    next
      case True
      show ?thesis
      proof (cases "client old")
        case None
        with assms Some True have
          "evs = [WriterReleased old, S3Stored old bucket (chunk_key old),
                  Log (Uploaded (path_name old) bucket (chunk_key old)), OsRemoved old,
                  WriterOpened ?fn]"
          "s' = ?s'"
          "w' = w\<lparr>s3_objects := s3_objects w @ [(bucket, chunk_key old)],
                   disk := insert ?fn (disk w - {old})\<rparr>"
          "r = Normal"
          by (simp_all add: defs)
        with Some True None show ?thesis by (intro stored)
      next
        case X: (Some x)
        show ?thesis
        proof (cases "is_Exception x")
          case E: True
          with assms Some True X have
            "evs = [WriterReleased old, S3Raised old bucket (chunk_key old) x,
                    Log (FailedToUpload (path_name old) x), OsRemoved old, WriterOpened ?fn]"
            "s' = ?s'" "w' = w\<lparr>disk := insert ?fn (disk w - {old})\<rparr>" "r = Normal"
            by (simp_all add: defs)
          with Some True X E show ?thesis by (intro failed)
        next
          case False
          with assms Some True X have
            "evs = [WriterReleased old, S3Raised old bucket (chunk_key old) x]"
            "s' = s" "w' = w" "r = Raise x"
            by (simp_all add: defs)
          with Some True X False show ?thesis by (intro passed)
        qed
      qed
    qed
  qed
qed

lemma save_finally_cases:
  assumes "save_finally client bucket s w = (evs, w', r)"
  obtains (none) "current_file s = None" "evs = [CapReleased]" "w' = w" "r = Normal"
  | (gone) cur where "current_file s = Some cur" "cur \<notin> disk w"
      "evs = [WriterReleased cur, CapReleased]" "w' = w" "r = Normal"
  | (stored) cur where "current_file s = Some cur" "cur \<in> disk w" "client cur = None"
      "evs = [WriterReleased cur, S3Stored cur bucket (chunk_key cur),
              Log (Uploaded (path_name cur) bucket (chunk_key cur)), OsRemoved cur, CapReleased]"
      "w' = w\<lparr>s3_objects := s3_objects w @ [(bucket, chunk_key cur)], disk := disk w - {cur}\<rparr>"
      "r = Normal"
  | (failed) cur x where "current_file s = Some cur" "cur \<in> disk w" "client cur = Some x"
      "is_Exception x"
      "evs = [WriterReleased cur, S3Raised cur bucket (chunk_key cur) x,
              Log (FailedToUpload (path_name cur) x), OsRemoved cur, CapReleased]"
      "w' = w\<lparr>disk := disk w - {cur}\<rparr>" "r = Normal"
  | (passed) cur x where "current_file s = Some cur" "cur \<in> disk w" "client cur = Some x"
      "\<not> is_Exception x"
      "evs = [WriterReleased cur, S3Raised cur bucket (chunk_key cur) x]" "w' = w" "r = Raise x"
proof -
  note defs = save_finally_def upload_to_s3_def upload_file_def os_remove_def Let_def
  show ?thesis
  proof (cases "current_file s")
    case None
    with assms have "evs = [CapReleased]" "w' = w" "r = Normal"
      by (simp_all add: defs)
    with None show ?thesis by (intro none)
  next
    case (Some cur)
    show ?thesis
    proof (cases "cur \<in> disk w")
      case False
      with assms Some have "evs = [WriterReleased cur, CapReleased]" "w' = w" "r = Normal"
        by (simp_all add: defs)
      with Some False show ?thesis by (intro gone)
    next
      case True
      show ?thesis
      proof (cases "client cur")
        case None
        with assms Some True have
          "evs = [WriterReleased cur, S3Stored cur bucket (chunk_key cur),
                  Log (Uploaded (path_name cur) bucket (chunk_key cur)), OsRemoved cur,
                  CapReleased]"
          "w' = w\<lparr>s3_objects := s3_objects w @ [(bucket, chunk_key cur)],
                   disk := disk w - {cur}\<rparr>"
          "r = Normal"
          by (simp_all add: defs)
        with Some True None show ?thesis by (intro stored)
      next
        case X: (Some x)
        show ?thesis
        proof (cases "is_Exception x")
          case E: True
          with assms Some True X have
            "evs = [WriterReleased cur, S3Raised cur bucket (chunk_key cur) x,
                    Log (FailedToUpload (path_name cur) x), OsRemoved cur, CapReleased]"
            "w' = w\<lparr>disk := disk w - {cur}\<rparr>" "r = Normal"
            by (simp_all add: defs)
          with Some True X E show ?thesis by (intro failed)
        next
          case False
          with assms Some True X have
            "evs = [WriterReleased cur, S3Raised cur bucket (chunk_key cur) x]" "w' = w"
            "r = Raise x"
            by (simp_all add: defs)
          with Some True X False show ?thesis by (intro passed)
        qed
      qed
    qed
  qed
qed


lemma rotate_chunks_ok:
  assumes "rotate client bucket d s w = (evs, s', w', Normal)"
  shows "upload_attempts evs = current_list s \<and>
         writer_opens evs = [chunk_filename d (chunk_counter s)] \<and>
         current_list s' = [chunk_filename d (chunk_counter s)] \<and>
         chunk_counter s' = chunk_counter s + 1"
  using assms
  by (cases rule: rotate_cases)
     (simp_all add: upload_attempts_simps writer_opens_simps current_list_def)

lemma rotate_chunks_fail:
  assumes "rotate client bucket d s w = (evs, s', w', r)" and "r \<noteq> Normal"
  shows "upload_attempts evs = current_list s \<and> current_list s \<noteq> [] \<and>
         writer_opens evs = [] \<and> stored_files evs = [] \<and> s' = s"
  using assms
  by (cases rule: rotate_cases)
     (simp_all add: upload_attempts_simps writer_opens_simps stored_files_simps current_list_def)

section \<open>stream.py: the loop\<close>

lemma save_loop_Frame_cases:
  assumes "save_loop c b fpc (Frame d # reads) s w = (evs, s', w', r)"
  obtains (same) "int (frame_counter s) mod fpc \<noteq> 0"
      "save_loop c b fpc reads (s\<lparr>frame_counter := frame_counter s + 1\<rparr>) w = (evs, s', w', r)"
  | (rotated) evs1 s1 w1 evs2 where "int (frame_counter s) mod fpc = 0"
      "rotate c b d s w = (evs1, s1, w1, Normal)"
      "save_loop c b fpc reads (s1\<lparr>frame_counter := frame_counter s1 + 1\<rparr>) w1 = (evs2, s', w', r)"
      "evs = evs1 @ evs2"
  | (broke) "int (frame_counter s) mod fpc = 0" "rotate c b d s w = (evs, s', w', r)"
      "r \<noteq> Normal"
proof (cases "int (frame_counter s) mod fpc = 0")
  case False
  with assms have
    "save_loop c b fpc reads (s\<lparr>frame_counter := frame_counter s + 1\<rparr>) w = (evs, s', w', r)"
    by (simp split: prod.splits)
  with False show ?thesis by (intro same)
next
  case True
  obtain evs1 s1 w1 r1 where rot: "rotate c b d s w = (evs1, s1, w1, r1)"
    using prod_cases4 by blast
  show ?thesis
  proof (cases "r1 = Normal")
    case N: True
    obtain evs2 s2 w2 r2 where rest:
      "save_loop c b fpc reads (s1\<lparr>frame_counter := frame_counter s1 + 1\<rparr>) w1 = (evs2, s2, w2, r2)"
      using prod_cases4 by blast
    with assms True rot N have "evs = evs1 @ evs2" "s' = s2" "w' = w2" "r = r2"
      by simp_all
    with True rot N rest show ?thesis by (intro rotated) simp_all
  next
    case False
    with assms True rot have "evs = evs1" "s' = s1" "w' = w1" "r = r1"
      by (cases r1; simp)+
    with True rot False show ?thesis by (intro broke) simp_all
  qed
qed

text \<open>
  The chunks of the loop, in order: those it was given (the one open at the start) and
  those it opens are uploaded one after the other, each when the next one is opened, and
  the last one is still open at the end; or the last one open has been tried too, when
  its rotation raised.
\<close>

lemma save_loop_chunks:
  "save_loop c b fpc reads s w = (evs, s', w', r) \<Longrightarrow>
     upload_attempts evs @ current_list s' = current_list s @ writer_opens evs \<or>
     (upload_attempts evs = current_list s @ writer_opens evs \<and> current_list s' \<noteq> [] \<and>
      suffix (current_list s') (upload_attempts evs) \<and>
      subseq (stored_files evs) (butlast (upload_attempts evs)))"
proof (induction reads arbitrary: s w evs)
  case Nil
  then show ?case by (simp add: upload_attempts_simps writer_opens_simps)
next
  case (Cons rd reads)
  show ?case
  proof (cases rd)
    case NoFrame
    with Cons.prems show ?thesis by (simp add: upload_attempts_simps writer_opens_simps)
  next
    case Interrupted
    with Cons.prems show ?thesis by (simp add: upload_attempts_simps writer_opens_simps)
  next
    case (Frame d)
    with Cons.prems have "save_loop c b fpc (Frame d # reads) s w = (evs, s', w', r)" by simp
    then show ?thesis
    proof (cases rule: save_loop_Frame_cases)
      case same
      from Cons.IH[OF same(2)] show ?thesis by (simp add: current_list_def)
    next
      case (rotated evs1 s1 w1 evs2)
      note r1 = rotate_chunks_ok[OF rotated(2)]
      let ?s1 = "s1\<lparr>frame_counter := frame_counter s1 + 1\<rparr>"
      have c1: "current_list ?s1 = current_list s1" by (simp add: current_list_def)
      from Cons.IH[OF rotated(3)] show ?thesis
      proof
        assume "upload_attempts evs2 @ current_list s' = current_list ?s1 @ writer_opens evs2"
        with r1 c1 rotated(4) show ?thesis
          by (simp add: upload_attempts_simps writer_opens_simps)
      next
        assume II: "upload_attempts evs2 = current_list ?s1 @ writer_opens evs2 \<and>
          current_list s' \<noteq> [] \<and> suffix (current_list s') (upload_attempts evs2) \<and>
          subseq (stored_files evs2) (butlast (upload_attempts evs2))"
        then have eq2: "upload_attempts evs2 = current_list ?s1 @ writer_opens evs2"
          and cur': "current_list s' \<noteq> []"
          and suf2: "suffix (current_list s') (upload_attempts evs2)"
          and st2: "subseq (stored_files evs2) (butlast (upload_attempts evs2))"
          by blast+
        from cur' suf2 have ne: "upload_attempts evs2 \<noteq> []" by auto
        have "subseq (stored_files evs1 @ stored_files evs2)
            (upload_attempts evs1 @ butlast (upload_attempts evs2))"
          using stored_subseq_attempts st2 by (rule list_emb_append_mono)
        with ne have st: "subseq (stored_files evs) (butlast (upload_attempts evs))"
          by (simp add: rotated(4) stored_files_simps upload_attempts_simps butlast_append)
        from suf2 have suf: "suffix (current_list s') (upload_attempts evs)"
          by (simp add: rotated(4) upload_attempts_simps suffix_appendI)
        from eq2 r1 c1 have eq: "upload_attempts evs = current_list s @ writer_opens evs"
          by (simp add: rotated(4) upload_attempts_simps writer_opens_simps)
        from eq cur' suf st show ?thesis by blast
      qed
    next
      case broke
      from rotate_chunks_fail[OF broke(2,3)] show ?thesis by simp
    qed
  qed
qed


section \<open>Lists of chunks\<close>

lemma subseq_remdups_adj: "subseq (remdups_adj xs) xs"
  by (induction xs rule: remdups_adj.induct) auto

lemma remdups_adj_repeat_last:
  assumes "suffix [c] xs"
  shows "remdups_adj (xs @ [c]) = remdups_adj xs"
proof -
  from assms obtain ys where "xs = ys @ [c]" by (auto simp: suffix_def)
  then show ?thesis by (simp add: remdups_adj_append_two)
qed

lemma chunk_order_lists:
  assumes inv: "A @ C' = Op \<or> (A = Op \<and> C' \<noteq> [] \<and> suffix C' A \<and> subseq S (butlast A))"
    and S: "subseq S A" and F: "F = [] \<or> F = C'" and SF: "subseq SF F"
    and C1: "length C' \<le> 1"
  shows "subseq (remdups_adj (A @ F)) Op \<and> subseq (S @ SF) Op"
  using inv
proof
  assume I: "A @ C' = Op"
  from F I have "prefix (A @ F) Op" by auto
  then have AF: "subseq (A @ F) Op" by (rule prefix_imp_subseq)
  have "subseq (remdups_adj (A @ F)) (A @ F)" by (rule subseq_remdups_adj)
  with AF have 1: "subseq (remdups_adj (A @ F)) Op" by (metis subseq_order.order_trans)
  from S SF have "subseq (S @ SF) (A @ F)" by (rule list_emb_append_mono)
  with AF have 2: "subseq (S @ SF) Op" by (metis subseq_order.order_trans)
  from 1 2 show ?thesis ..
next
  assume II: "A = Op \<and> C' \<noteq> [] \<and> suffix C' A \<and> subseq S (butlast A)"
  then have A: "A = Op" and ne: "C' \<noteq> []" and suf: "suffix C' A"
    and SB: "subseq S (butlast A)" by blast+
  from ne C1 obtain c where c: "C' = [c]" by (cases C') auto
  from suf c obtain B where B: "A = B @ [c]" by (auto simp: suffix_def)
  from F show ?thesis
  proof
    assume F0: "F = []"
    with SF have "SF = []" by simp
    with F0 A S subseq_remdups_adj[of A] show ?thesis by simp
  next
    assume FC: "F = C'"
    with c suf have "remdups_adj (A @ F) = remdups_adj A"
      by (simp add: remdups_adj_repeat_last)
    with A subseq_remdups_adj[of A] have 1: "subseq (remdups_adj (A @ F)) Op" by simp
    from SB SF have "subseq (S @ SF) (butlast A @ F)" by (rule list_emb_append_mono)
    with B FC c A have 2: "subseq (S @ SF) Op" by simp
    from 1 2 show ?thesis ..
  qed
qed


section \<open>stream.py: save\<close>

lemma save_cases:
  assumes "save opened fps_reported client bucket reads w = (evs, w', r)"
  obtains (not_opened) "\<not> opened" "evs = []" "w' = w"
      "r = Died (Exc ''Failed to open RTSP stream'')"
  | (reading) s where "opened" "r = Unfinished"
      "save_loop client bucket ((if fps_reported = 0 then 30 else fps_reported) * 60) reads
         save_init w = (evs, s, w', Blocked)"
  | (left) evs1 s w1 r1 evs2 r2 where "opened" "r1 \<noteq> Blocked"
      "save_loop client bucket ((if fps_reported = 0 then 30 else fps_reported) * 60) reads
         save_init w = (evs1, s, w1, r1)"
      "save_finally client bucket s w1 = (evs2, w', r2)" "evs = evs1 @ evs2"
      "r = (case r2 of Raise x \<Rightarrow> Died x
            | _ \<Rightarrow> (case r1 of Raise x \<Rightarrow> if x = KeyboardInterrupt then Ended else Died x
                     | _ \<Rightarrow> Ended))"
proof (cases opened)
  case False
  with assms have "evs = []" "w' = w" "r = Died (Exc ''Failed to open RTSP stream'')"
    by (simp_all add: save_def)
  with False show ?thesis by (intro not_opened)
next
  case True
  let ?fpc = "(if fps_reported = 0 then 30 else fps_reported) * 60"
  obtain evs1 s w1 r1 where l: "save_loop client bucket ?fpc reads save_init w = (evs1, s, w1, r1)"
    using prod_cases4 by blast
  show ?thesis
  proof (cases "r1 = Blocked")
    case B: True
    with assms True l have "evs = evs1" "w' = w1" "r = Unfinished"
      by (simp_all add: save_def Let_def)
    with True l B show ?thesis by (intro reading[of s]) simp_all
  next
    case False
    obtain evs2 w2 r2 where f: "save_finally client bucket s w1 = (evs2, w2, r2)"
      using prod_cases3 by blast
    from assms True l False f have "evs = evs1 @ evs2" "w' = w2"
      "r = (case r2 of Raise x \<Rightarrow> Died x
            | _ \<Rightarrow> (case r1 of Raise x \<Rightarrow> if x = KeyboardInterrupt then Ended else Died x
                     | _ \<Rightarrow> Ended))"
      by (cases r1; cases r2; simp add: save_def Let_def)+
    with True False l f show ?thesis by (intro left[of r1 evs1 s w1 evs2 r2]) simp_all
  qed
qed

lemma save_finally_chunks:
  assumes "save_finally client bucket s w = (evs, w', r)"
  shows "writer_opens evs = [] \<and> (upload_attempts evs = [] \<or> upload_attempts evs = current_list s)"
  using assms
  by (cases rule: save_finally_cases)
     (simp_all add: upload_attempts_simps writer_opens_simps current_list_def)

lemma current_list_short: "length (current_list s) \<le> 1"
  by (simp add: current_list_def split: option.splits)

lemma save_chunks:
  assumes "save opened fps_reported client bucket reads w = (evs, w', r)"
  shows "subseq (remdups_adj (upload_attempts evs)) (writer_opens evs) \<and>
         subseq (stored_files evs) (writer_opens evs)"
  using assms
proof (cases rule: save_cases)
  case not_opened
  then show ?thesis by (simp add: upload_attempts_simps stored_files_simps)
next
  case (reading s)
  from save_loop_chunks[OF reading(3)]
  have inv: "upload_attempts evs @ current_list s = writer_opens evs \<or>
     (upload_attempts evs = writer_opens evs \<and> current_list s \<noteq> [] \<and>
      suffix (current_list s) (upload_attempts evs) \<and>
      subseq (stored_files evs) (butlast (upload_attempts evs)))"
    by (simp add: current_list_def save_init_def)
  from chunk_order_lists[OF inv stored_subseq_attempts, of "[]" "[]"] current_list_short
  show ?thesis by simp
next
  case (left evs1 s w1 r1 evs2 r2)
  from save_loop_chunks[OF left(3)]
  have inv: "upload_attempts evs1 @ current_list s = writer_opens evs1 \<or>
     (upload_attempts evs1 = writer_opens evs1 \<and> current_list s \<noteq> [] \<and>
      suffix (current_list s) (upload_attempts evs1) \<and>
      subseq (stored_files evs1) (butlast (upload_attempts evs1)))"
    by (simp add: current_list_def save_init_def)
  from save_finally_chunks[OF left(4)]
  have o2: "writer_opens evs2 = []"
    and a2: "upload_attempts evs2 = [] \<or> upload_attempts evs2 = current_list s"
    by blast+
  from chunk_order_lists[OF inv stored_subseq_attempts a2 stored_subseq_attempts
      current_list_short] o2 left(5)
  show ?thesis by (simp add: upload_attempts_simps stored_files_simps writer_opens_simps)
qed

lemma save_loop_numbering:
  "save_loop c b fpc reads s w = (evs, s', w', r) \<Longrightarrow>
     \<exists>ds. writer_opens evs =
            map2 chunk_filename ds [chunk_counter s ..< chunk_counter s + length ds] \<and>
          chunk_counter s' = chunk_counter s + length ds"
proof (induction reads arbitrary: s w evs)
  case Nil
  then have "writer_opens evs =
      map2 chunk_filename [] [chunk_counter s ..< chunk_counter s + length ([]::datetime list)] \<and>
      chunk_counter s' = chunk_counter s + length ([]::datetime list)"
    by (simp add: writer_opens_simps)
  then show ?case by blast
next
  case (Cons rd reads)
  have none: "evs = [] \<Longrightarrow> s' = s \<Longrightarrow> ?case"
  proof -
    assume "evs = []" "s' = s"
    then have "writer_opens evs =
        map2 chunk_filename [] [chunk_counter s ..< chunk_counter s + length ([]::datetime list)] \<and>
        chunk_counter s' = chunk_counter s + length ([]::datetime list)"
      by (simp add: writer_opens_simps)
    then show ?case by blast
  qed
  show ?case
  proof (cases rd)
    case NoFrame
    with Cons.prems none show ?thesis by simp
  next
    case Interrupted
    with Cons.prems none show ?thesis by simp
  next
    case (Frame d)
    with Cons.prems have "save_loop c b fpc (Frame d # reads) s w = (evs, s', w', r)" by simp
    then show ?thesis
    proof (cases rule: save_loop_Frame_cases)
      case same
      from Cons.IH[OF same(2)] show ?thesis by simp
    next
      case (rotated evs1 s1 w1 evs2)
      note r1 = rotate_chunks_ok[OF rotated(2)]
      from Cons.IH[OF rotated(3)] r1 obtain ds where
        o2: "writer_opens evs2 =
               map2 chunk_filename ds [Suc (chunk_counter s) ..< Suc (chunk_counter s) + length ds]"
        and c2: "chunk_counter s' = Suc (chunk_counter s) + length ds"
        by auto
      have u: "[chunk_counter s ..< chunk_counter s + length (d # ds)] =
          chunk_counter s # [Suc (chunk_counter s) ..< Suc (chunk_counter s) + length ds]"
        by (simp add: upt_conv_Cons del: upt_Suc)
      from r1 o2 rotated(4) have "writer_opens evs =
          chunk_filename d (chunk_counter s) #
          map2 chunk_filename ds [Suc (chunk_counter s) ..< Suc (chunk_counter s) + length ds]"
        by (simp add: writer_opens_simps del: upt_Suc)
      then have "writer_opens evs =
          map2 chunk_filename (d # ds) [chunk_counter s ..< chunk_counter s + length (d # ds)]"
        unfolding u by simp
      moreover from c2 have "chunk_counter s' = chunk_counter s + length (d # ds)" by simp
      ultimately show ?thesis by blast
    next
      case broke
      from rotate_chunks_fail[OF broke(2,3)] have "writer_opens evs =
          map2 chunk_filename [] [chunk_counter s ..< chunk_counter s + length ([]::datetime list)] \<and>
          chunk_counter s' = chunk_counter s + length ([]::datetime list)"
        by simp
      then show ?thesis by blast
    qed
  qed
qed

lemma save_numbering:
  assumes "save opened fps_reported client bucket reads w = (evs, w', r)"
  shows "\<exists>ds. writer_opens evs = map2 chunk_filename ds [0 ..< length ds]"
  using assms
proof (cases rule: save_cases)
  case not_opened
  then have "writer_opens evs = map2 chunk_filename [] [0 ..< length ([]::datetime list)]"
    by (simp add: writer_opens_simps)
  then show ?thesis by blast
next
  case (reading s)
  from save_loop_numbering[OF reading(3)] show ?thesis by (auto simp: save_init_def)
next
  case (left evs1 s w1 r1 evs2 r2)
  from save_loop_numbering[OF left(3)] save_finally_chunks[OF left(4)] left(5)
  show ?thesis by (auto simp: save_init_def writer_opens_simps)
qed


section \<open>stream.py: release, upload, remove\<close>

lemma rotate_trace:
  assumes "rotate client bucket d s w = (evs, s', w', r)"
  shows "removed_after_store evs \<and> closed_before_handover cl evs"
  using assms
  by (cases rule: rotate_cases) (simp_all add: handed_over_def)

lemma save_finally_trace:
  assumes "save_finally client bucket s w = (evs, w', r)"
  shows "removed_after_store evs \<and> closed_before_handover cl evs"
  using assms
  by (cases rule: save_finally_cases) (simp_all add: handed_over_def)

lemma save_loop_trace:
  "save_loop c b fpc reads s w = (evs, s', w', r) \<Longrightarrow>
     removed_after_store evs \<and> closed_before_handover cl evs"
proof (induction reads arbitrary: s w evs cl)
  case Nil
  then show ?case by simp
next
  case (Cons rd reads)
  show ?case
  proof (cases rd)
    case NoFrame
    with Cons.prems show ?thesis by simp
  next
    case Interrupted
    with Cons.prems show ?thesis by simp
  next
    case (Frame d)
    with Cons.prems have "save_loop c b fpc (Frame d # reads) s w = (evs, s', w', r)" by simp
    then show ?thesis
    proof (cases rule: save_loop_Frame_cases)
      case same
      from Cons.IH[OF same(2)] show ?thesis .
    next
      case (rotated evs1 s1 w1 evs2)
      from rotate_trace[OF rotated(2)] Cons.IH[OF rotated(3)] rotated(4) show ?thesis
        by (simp add: removed_after_store_append closed_before_handover_append)
    next
      case broke
      from rotate_trace[OF broke(2)] show ?thesis .
    qed
  qed
qed

lemma save_trace:
  assumes "save opened fps_reported client bucket reads w = (evs, w', r)"
  shows "removed_after_store evs \<and> closed_before_handover cl evs"
  using assms
proof (cases rule: save_cases)
  case not_opened
  then show ?thesis by simp
next
  case (reading s)
  from save_loop_trace[OF reading(3)] show ?thesis .
next
  case (left evs1 s w1 r1 evs2 r2)
  from save_loop_trace[OF left(3)] save_finally_trace[OF left(4)] left(5) show ?thesis
    by (simp add: removed_after_store_append closed_before_handover_append)
qed

section \<open>What is written and stored, by name\<close>

lemma recorded_files_simps:
  "recorded_files [] = []"
  "recorded_files (e # es) = (case recorded_of e of None \<Rightarrow> recorded_files es | Some p \<Rightarrow> p # recorded_files es)"
  "recorded_files (xs @ ys) = recorded_files xs @ recorded_files ys"
  by (simp_all add: recorded_files_def List.map_filter_simps map_filter_append split: option.splits)

lemma frame_times_simps:
  "frame_times [] = []"
  "frame_times (Frame d # rs) = d # frame_times rs"
  "frame_times (NoFrame # rs) = frame_times rs"
  "frame_times (Interrupted # rs) = frame_times rs"
  by (simp_all add: frame_times_def List.map_filter_simps)

lemma subseq_frame_times_Cons: "subseq ds (frame_times rs) \<Longrightarrow> subseq ds (frame_times (rd # rs))"
  by (cases rd) (simp_all add: frame_times_simps list_emb_Cons)

subsection \<open>save\<close>

lemma rotate_keys:
  assumes "rotate client bucket d s w = (evs, s', w', r)"
  shows "list_all (keyed bucket chunk_key) evs \<and>
         s3_objects w' = s3_objects w @ map (\<lambda>p. (bucket, chunk_key p)) (stored_files evs)"
  using assms
  by (cases rule: rotate_cases) (simp_all add: stored_files_simps)

lemma save_finally_keys:
  assumes "save_finally client bucket s w = (evs, w', r)"
  shows "list_all (keyed bucket chunk_key) evs \<and>
         s3_objects w' = s3_objects w @ map (\<lambda>p. (bucket, chunk_key p)) (stored_files evs)"
  using assms
  by (cases rule: save_finally_cases) (simp_all add: stored_files_simps)

lemma save_loop_keys:
  "save_loop c b fpc reads s w = (evs, s', w', r) \<Longrightarrow>
     list_all (keyed b chunk_key) evs \<and>
     s3_objects w' = s3_objects w @ map (\<lambda>p. (b, chunk_key p)) (stored_files evs)"
proof (induction reads arbitrary: s w evs)
  case Nil
  then show ?case by (simp add: stored_files_simps)
next
  case (Cons rd reads)
  show ?case
  proof (cases rd)
    case NoFrame
    with Cons.prems show ?thesis by (simp add: stored_files_simps)
  next
    case Interrupted
    with Cons.prems show ?thesis by (simp add: stored_files_simps)
  next
    case (Frame d)
    with Cons.prems have "save_loop c b fpc (Frame d # reads) s w = (evs, s', w', r)" by simp
    then show ?thesis
    proof (cases rule: save_loop_Frame_cases)
      case same
      from Cons.IH[OF same(2)] show ?thesis .
    next
      case (rotated evs1 s1 w1 evs2)
      from rotate_keys[OF rotated(2)] Cons.IH[OF rotated(3)] rotated(4) show ?thesis
        by (simp add: stored_files_simps)
    next
      case broke
      from rotate_keys[OF broke(2)] show ?thesis .
    qed
  qed
qed

lemma save_keys:
  assumes "save opened fps_reported client bucket reads w = (evs, w', r)"
  shows "list_all (keyed bucket chunk_key) evs \<and>
         s3_objects w' = s3_objects w @ map (\<lambda>p. (bucket, chunk_key p)) (stored_files evs)"
  using assms
proof (cases rule: save_cases)
  case not_opened
  then show ?thesis by (simp add: stored_files_simps)
next
  case (reading s)
  from save_loop_keys[OF reading(3)] show ?thesis .
next
  case (left evs1 s w1 r1 evs2 r2)
  from save_loop_keys[OF left(3)] save_finally_keys[OF left(4)] left(5) show ?thesis
    by (simp add: stored_files_simps)
qed

lemma save_loop_names:
  "save_loop c b fpc reads s w = (evs, s', w', r) \<Longrightarrow>
     \<exists>ds. subseq ds (frame_times reads) \<and>
          writer_opens evs =
            map2 chunk_filename ds [chunk_counter s ..< chunk_counter s + length ds] \<and>
          chunk_counter s' = chunk_counter s + length ds"
proof (induction reads arbitrary: s w evs)
  case Nil
  then have "subseq [] (frame_times []) \<and> writer_opens evs =
      map2 chunk_filename [] [chunk_counter s ..< chunk_counter s + length ([]::datetime list)] \<and>
      chunk_counter s' = chunk_counter s + length ([]::datetime list)"
    by (simp add: writer_opens_simps)
  then show ?case by blast
next
  case (Cons rd reads)
  have none: "evs = [] \<Longrightarrow> s' = s \<Longrightarrow> ?case"
  proof -
    assume "evs = []" "s' = s"
    then have "subseq [] (frame_times (rd # reads)) \<and> writer_opens evs =
        map2 chunk_filename [] [chunk_counter s ..< chunk_counter s + length ([]::datetime list)] \<and>
        chunk_counter s' = chunk_counter s + length ([]::datetime list)"
      by (simp add: writer_opens_simps)
    then show ?case by blast
  qed
  show ?case
  proof (cases rd)
    case NoFrame
    with Cons.prems none show ?thesis by simp
  next
    case Interrupted
    with Cons.prems none show ?thesis by simp
  next
    case (Frame d)
    with Cons.prems have "save_loop c b fpc (Frame d # reads) s w = (evs, s', w', r)" by simp
    then show ?thesis
    proof (cases rule: save_loop_Frame_cases)
      case same
      from Cons.IH[OF same(2)] obtain ds where
        "subseq ds (frame_times reads)"
        "writer_opens evs =
            map2 chunk_filename ds [chunk_counter s ..< chunk_counter s + length ds]"
        "chunk_counter s' = chunk_counter s + length ds"
        by auto
      with subseq_frame_times_Cons[of ds reads rd] show ?thesis by blast
    next
      case (rotated evs1 s1 w1 evs2)
      note r1 = rotate_chunks_ok[OF rotated(2)]
      from Cons.IH[OF rotated(3)] r1 obtain ds where
        sub: "subseq ds (frame_times reads)" and
        o2: "writer_opens evs2 =
               map2 chunk_filename ds [Suc (chunk_counter s) ..< Suc (chunk_counter s) + length ds]"
        and c2: "chunk_counter s' = Suc (chunk_counter s) + length ds"
        by auto
      have u: "[chunk_counter s ..< chunk_counter s + length (d # ds)] =
          chunk_counter s # [Suc (chunk_counter s) ..< Suc (chunk_counter s) + length ds]"
        by (simp add: upt_conv_Cons del: upt_Suc)
      from r1 o2 rotated(4) have "writer_opens evs =
          chunk_filename d (chunk_counter s) #
          map2 chunk_filename ds [Suc (chunk_counter s) ..< Suc (chunk_counter s) + length ds]"
        by (simp add: writer_opens_simps del: upt_Suc)
      then have "writer_opens evs =
          map2 chunk_filename (d # ds) [chunk_counter s ..< chunk_counter s + length (d # ds)]"
        unfolding u by simp
      moreover from c2 have "chunk_counter s' = chunk_counter s + length (d # ds)" by simp
      moreover from sub Frame have "subseq (d # ds) (frame_times (rd # reads))"
        by (simp add: frame_times_simps)
      ultimately show ?thesis by blast
    next
      case broke
      from rotate_chunks_fail[OF broke(2,3)] have
        "subseq [] (frame_times (rd # reads)) \<and> writer_opens evs =
          map2 chunk_filename [] [chunk_counter s ..< chunk_counter s + length ([]::datetime list)] \<and>
          chunk_counter s' = chunk_counter s + length ([]::datetime list)"
        by simp
      then show ?thesis by blast
    qed
  qed
qed

lemma save_names:
  assumes "save opened fps_reported client bucket reads w = (evs, w', r)"
  shows "\<exists>ds. subseq ds (frame_times reads) \<and>
              writer_opens evs = map2 chunk_filename ds [0 ..< length ds]"
  using assms
proof (cases rule: save_cases)
  case not_opened
  then have "subseq [] (frame_times reads) \<and>
      writer_opens evs = map2 chunk_filename [] [0 ..< length ([]::datetime list)]"
    by (simp add: writer_opens_simps)
  then show ?thesis by blast
next
  case (reading s)
  from save_loop_names[OF reading(3)] show ?thesis by (auto simp: save_init_def)
next
  case (left evs1 s w1 r1 evs2 r2)
  from save_loop_names[OF left(3)] save_finally_chunks[OF left(4)] left(5)
  show ?thesis by (auto simp: save_init_def writer_opens_simps)
qed

subsection \<open>The upload worker\<close>

lemma upload_files_keys:
  "upload_files cfg c fs w = (evs, w', r) \<Longrightarrow>
     list_all (keyed (s3_bucket cfg) (s3_key_of (s3_prefix cfg))) evs"
proof (induction fs arbitrary: w evs)
  case Nil
  then show ?case by simp
next
  case (Cons p fs)
  from Cons.prems show ?case
  proof (cases rule: upload_files_step)
    case (skip evs')
    from Cons.IH[OF skip(2)] skip(3) show ?thesis by simp
  next
    case (stored evs')
    from Cons.IH[OF stored(3)] stored(4) show ?thesis by simp
  next
    case (failed x evs')
    from Cons.IH[OF failed(4)] failed(5) show ?thesis by simp
  next
    case (passed x)
    then show ?thesis by simp
  qed
qed

lemma upload_iteration_keys:
  assumes "upload_iteration cfg e u = (evs, u', r)"
  shows "list_all (keyed (s3_bucket cfg) (s3_key_of (s3_prefix cfg))) evs \<and>
         s3_objects (wld u') =
           s3_objects (wld u) @
           map (\<lambda>p. (s3_bucket cfg, s3_key_of (s3_prefix cfg) p)) (stored_files evs)"
  using assms
proof (cases rule: upload_iteration_cases)
  case idle
  then show ?thesis by (simp add: stored_files_simps)
next
  case (cycle evs1 w1)
  from upload_files_keys[OF cycle(2)] upload_files_world[OF cycle(2)] cycle(3,5)
  show ?thesis by (simp add: stored_files_simps)
next
  case (broken evs1 w1)
  from upload_files_keys[OF broken(3)] upload_files_world[OF broken(3)] broken(4,5)
  show ?thesis by (simp add: stored_files_simps)
qed

lemma upload_loop_keys:
  "upload_loop cfg envs u = (evs, u', r) \<Longrightarrow>
     list_all (keyed (s3_bucket cfg) (s3_key_of (s3_prefix cfg))) evs \<and>
     s3_objects (wld u') =
       s3_objects (wld u) @
       map (\<lambda>p. (s3_bucket cfg, s3_key_of (s3_prefix cfg) p)) (stored_files evs)"
proof (induction envs arbitrary: u evs)
  case Nil
  then show ?case by (simp add: stored_files_simps)
next
  case (Cons e es)
  let ?u = "u\<lparr>wld := producer_acts e (wld u)\<rparr>"
  have p: "s3_objects (wld ?u) = s3_objects (wld u)" by (simp add: producer_acts_def)
  from Cons.prems show ?case
  proof (cases rule: upload_loop_Cons_cases)
    case stop
    with p show ?thesis by (simp add: stored_files_simps)
  next
    case (go evs1 u1 evs2)
    from upload_iteration_keys[OF go(2)] Cons.IH[OF go(3)] go(4) p show ?thesis
      by (simp add: stored_files_simps)
  next
    case (die x)
    from upload_iteration_keys[OF die(3)] p show ?thesis by simp
  next
    case block
    from upload_iteration_keys[OF block(3)] p show ?thesis by simp
  qed
qed

subsection \<open>The capture loop\<close>

lemma capture_try_recorded:
  "recorded_files (fst (capture_try filepath e w)) = [] \<and>
   queue_puts (fst (capture_try filepath e w)) = [] \<or>
   recorded_files (fst (capture_try filepath e w)) = [filepath] \<and>
   subseq (queue_puts (fst (capture_try filepath e w))) [filepath]"
  by (simp add: capture_try_def Let_def recorded_files_simps queue_puts_simps
      split: option.splits)

lemma capture_iteration_recorded:
  assumes "capture_iteration storage_path e w = (evs, w', r)"
  shows "subseq (recorded_files evs) [capture_filepath storage_path (c_now e)] \<and>
         subseq (queue_puts evs) (recorded_files evs)"
proof -
  let ?fp = "capture_filepath storage_path (c_now e)"
  obtain evs0 w0 r0 where t: "capture_try ?fp e w = (evs0, w0, r0)"
    using prod_cases3 by blast
  from capture_try_recorded[of ?fp e w] t
  have 0: "subseq (recorded_files evs0) [?fp] \<and> subseq (queue_puts evs0) (recorded_files evs0)"
    by auto
  from assms t have "\<exists>tl. evs = evs0 @ tl \<and> recorded_files tl = [] \<and> queue_puts tl = []"
    by (cases r0)
       (auto simp: capture_iteration_def Let_def recorded_files_simps queue_puts_simps
         split: option.splits if_splits)
  with 0 show ?thesis by (auto simp: recorded_files_simps queue_puts_simps)
qed

lemma capture_loop_recorded:
  "capture_loop storage_path envs w = (evs, w', r) \<Longrightarrow>
     subseq (recorded_files evs) (map (\<lambda>e. capture_filepath storage_path (c_now e)) envs) \<and>
     subseq (queue_puts evs) (recorded_files evs)"
proof (induction envs arbitrary: w evs)
  case Nil
  then show ?case by (simp add: recorded_files_simps queue_puts_simps)
next
  case (Cons e es)
  from Cons.prems show ?case
  proof (cases rule: capture_loop_Cons_cases)
    case stop
    then show ?thesis by (simp add: recorded_files_simps queue_puts_simps)
  next
    case (go evs1 w1 evs2)
    from capture_iteration_recorded[OF go(2)] Cons.IH[OF go(3)]
    have a: "subseq (recorded_files evs1) [capture_filepath storage_path (c_now e)]"
      and b: "subseq (queue_puts evs1) (recorded_files evs1)"
      and c: "subseq (recorded_files evs2)
                (map (\<lambda>e. capture_filepath storage_path (c_now e)) es)"
      and d: "subseq (queue_puts evs2) (recorded_files evs2)"
      by blast+
    from a c have "subseq (recorded_files evs1 @ recorded_files evs2)
        ([capture_filepath storage_path (c_now e)] @
         map (\<lambda>e. capture_filepath storage_path (c_now e)) es)"
      by (rule list_emb_append_mono)
    moreover from b d have "subseq (queue_puts evs1 @ queue_puts evs2)
        (recorded_files evs1 @ recorded_files evs2)"
      by (rule list_emb_append_mono)
    ultimately show ?thesis by (simp add: go(4) recorded_files_simps queue_puts_simps)
  next
    case (die x)
    from capture_iteration_recorded[OF die(3)]
    have a: "subseq (recorded_files evs) [capture_filepath storage_path (c_now e)]"
      and b: "subseq (queue_puts evs) (recorded_files evs)" by blast+
    from a
    have "subseq (recorded_files evs @ [])
        ([capture_filepath storage_path (c_now e)] @
         map (\<lambda>e. capture_filepath storage_path (c_now e)) es)"
      by (intro list_emb_append_mono) simp_all
    with b show ?thesis by simp
  next
    case block
    from capture_iteration_recorded[OF block(3)]
    have a: "subseq (recorded_files evs) [capture_filepath storage_path (c_now e)]"
      and b: "subseq (queue_puts evs) (recorded_files evs)" by blast+
    from a
    have "subseq (recorded_files evs @ [])
        ([capture_filepath storage_path (c_now e)] @
         map (\<lambda>e. capture_filepath storage_path (c_now e)) es)"
      by (intro list_emb_append_mono) simp_all
    with b show ?thesis by simp
  qed
qed


lemma capture_video_loop_recorded:
  assumes "capture_video_loop storage_path startup_fault envs w = (evs, w', r)"
  shows "subseq (recorded_files evs) (map (\<lambda>e. capture_filepath storage_path (c_now e)) envs) \<and>
         subseq (queue_puts evs) (recorded_files evs)"
proof (cases startup_fault)
  case (Some x)
  with assms show ?thesis
    by (simp add: capture_video_loop_def recorded_files_simps queue_puts_simps)
next
  case None
  obtain evs1 w1 r1 where l: "capture_loop storage_path envs w = (evs1, w1, r1)"
    using prod_cases3 by blast
  from assms None l have "recorded_files evs = recorded_files evs1"
    and "queue_puts evs = queue_puts evs1"
    by (cases r1; simp add: capture_video_loop_def recorded_files_simps queue_puts_simps; fastforce simp: recorded_files_simps queue_puts_simps)+
  with capture_loop_recorded[OF l] show ?thesis by simp
qed

lemma s3_upload_loop_keys:
  assumes "s3_upload_loop cfg t0 envs w = (evs, u', r)"
  shows "list_all (keyed (s3_bucket cfg) (s3_key_of (s3_prefix cfg))) evs \<and>
         s3_objects (wld u') =
           s3_objects w @
           map (\<lambda>p. (s3_bucket cfg, s3_key_of (s3_prefix cfg) p)) (stored_files evs)"
  using upload_loop_keys[OF assms[unfolded s3_upload_loop_def]] by simp

lemma upload_to_s3_keys:
  "list_all (keyed bucket chunk_key) (fst (upload_to_s3 local_file client bucket w))"
  by (simp add: upload_to_s3_def Let_def split: sum.splits)

lemma save_one_frame:
  "save True 30 (\<lambda>p. None) ''bucket'' [Frame noon, NoFrame] empty_world =
     ([WriterOpened ''/tmp/video_chunks/chunk_20240102_120000_0000.mp4'',
       WriterReleased ''/tmp/video_chunks/chunk_20240102_120000_0000.mp4'',
       S3Stored ''/tmp/video_chunks/chunk_20240102_120000_0000.mp4'' ''bucket''
         ''video_chunks/chunk_20240102_120000_0000.mp4'',
       Log (Uploaded ''chunk_20240102_120000_0000.mp4'' ''bucket''
         ''video_chunks/chunk_20240102_120000_0000.mp4''),
       OsRemoved ''/tmp/video_chunks/chunk_20240102_120000_0000.mp4'',
       CapReleased],
      \<lparr>disk = {}, video_queue = [],
        s3_objects = [(''bucket'', ''video_chunks/chunk_20240102_120000_0000.mp4'')]\<rparr>, Ended)"
  by (simp add: save_def save_init_def rotate_def save_finally_def upload_to_s3_def
      upload_file_def os_remove_def Let_def chunk_filename_noon_0 chunk_key_noon_0
      path_name_noon_0 empty_world_def)

lemma steady_iteration:
  "capture_iteration ''videos'' steady empty_world =
     ([Log (StartingChunk ''videos/video_20240102_120000.h264''),
       EncoderStart ''videos/video_20240102_120000.h264'', Sleep (1 / 10),
       EncoderStop ''videos/video_20240102_120000.h264'', CameraStop, CameraStart,
       QueuePut ''videos/video_20240102_120000.h264'',
       Log (FinishedChunk ''videos/video_20240102_120000.h264'')],
      \<lparr>disk = {''videos/video_20240102_120000.h264''},
        video_queue = [''videos/video_20240102_120000.h264''], s3_objects = []\<rparr>,
      Normal)"
proof -
  have n: "c_now steady = noon" and f: "c_fault steady = None" by (simp_all add: steady_def)
  show ?thesis
    unfolding capture_iteration_def n Let_def capture_try_complete[OF f wait_steady]
      capture_filepath_noon
    by (simp add: empty_world_def)
qed

lemma capture_one_chunk:
  "capture_video_loop ''videos'' None [steady, flag_cleared] empty_world =
     ([CameraConfigure, CameraStart,
       Log (StartingChunk ''videos/video_20240102_120000.h264''),
       EncoderStart ''videos/video_20240102_120000.h264'', Sleep (1 / 10),
       EncoderStop ''videos/video_20240102_120000.h264'', CameraStop, CameraStart,
       QueuePut ''videos/video_20240102_120000.h264'',
       Log (FinishedChunk ''videos/video_20240102_120000.h264''),
       CameraStop, Log CaptureLoopEnded],
      \<lparr>disk = {''videos/video_20240102_120000.h264''},
        video_queue = [''videos/video_20240102_120000.h264''], s3_objects = []\<rparr>,
      Ended)"
proof -
  have r: "c_running steady" "\<not> c_running flag_cleared"
    by (simp_all add: steady_def flag_cleared_def)
  show ?thesis
    by (simp add: capture_video_loop_def r steady_iteration)
qed

lemma upload_one_arrival:
  "s3_upload_loop pi_cfg 0 [arrival_at 400 ''videos/a.h264'', flag_cleared_u] empty_world =
     ([Log (StartingUpload 1), Log (Uploading ''videos/a.h264'' ''bucket'' ''pi_videos/a.h264''),
       S3Stored ''videos/a.h264'' ''bucket'' ''pi_videos/a.h264'', OsRemoved ''videos/a.h264'',
       Log (UploadedAndRemoved ''videos/a.h264''), Sleep 5, Log UploadLoopEnded],
      \<lparr>wld = \<lparr>disk = {}, video_queue = [], s3_objects = [(''bucket'', ''pi_videos/a.h264'')]\<rparr>,
       files_to_upload = [], last_upload_time = 400\<rparr>,
      Ended)"
proof -
  have p: "\<lparr>wld = empty_world, files_to_upload = [], last_upload_time = 0\<rparr>
      \<lparr>wld := producer_acts (arrival_at 400 ''videos/a.h264'') empty_world\<rparr> = one_pending"
    by (simp add: producer_acts_def arrival_at_def empty_world_def one_pending_def)
  have it: "upload_iteration pi_cfg (arrival_at 400 ''videos/a.h264'') one_pending =
     ([Log (StartingUpload 1), Log (Uploading ''videos/a.h264'' ''bucket'' ''pi_videos/a.h264''),
       S3Stored ''videos/a.h264'' ''bucket'' ''pi_videos/a.h264'', OsRemoved ''videos/a.h264'',
       Log (UploadedAndRemoved ''videos/a.h264''), Sleep 5],
      \<lparr>wld = \<lparr>disk = {}, video_queue = [], s3_objects = [(''bucket'', ''pi_videos/a.h264'')]\<rparr>,
       files_to_upload = [], last_upload_time = 400\<rparr>,
      Normal)"
    by (simp add: upload_iteration_def arrival_at_def one_pending_def S3_UPLOAD_INTERVAL_def
        BATCH_COUNT_def upload_one_def upload_file_def os_remove_def pi_cfg_def key_a Let_def)
  have r: "u_running (arrival_at 400 ''videos/a.h264'')" "\<not> u_running flag_cleared_u"
    by (simp_all add: arrival_at_def flag_cleared_u_def)
  have q: "producer_acts flag_cleared_u w = w" for w
    by (simp add: producer_acts_def flag_cleared_u_def quiet_at_def)
  show ?thesis
    unfolding s3_upload_loop_def
    by (simp add: r p[simplified] it q Let_def)
qed



text \<open>
  Claim C9, as the code has it. \<^verbatim>\<open>save\<close> opens its chunks under the names
  \<^verbatim>\<open>/tmp/video_chunks/chunk_<YYYYMMDD_HHMMSS>_<seq>.mp4\<close>, numbered from 0 in the order
  it opens them and stamped with the times of frames it read, the sequence number
  written with at least four digits; every file it gives to the storage client, and
  every file \<^verbatim>\<open>upload_to_s3\<close> gives, goes under the key \<^verbatim>\<open>video_chunks/<filename>\<close>, and
  the bucket gains exactly these keys. The directory and the prefix are fixed. The
  camera's capture loop records, and puts into the queue, only files named
  \<^verbatim>\<open>video_<YYYYMMDD_HHMMSS>.h264\<close> under the storage path, stamped with the times its
  iterations start at, without the word chunk and without a sequence number; the upload
  worker gives every file to the storage client under \<^verbatim>\<open><s3_prefix><filename>\<close>, and the
  bucket gains exactly these keys. In both, the key ends with the name of the local
  file.
\<close>

theorem chunk_names_and_keys:
  assumes "save opened fps_reported client bucket reads w = (evs, w', r)"
    and "capture_video_loop storage_path startup_fault cenvs cw = (cevs, cw', cr)"
    and "s3_upload_loop cfg t0 uenvs uw = (uevs, u', ur)"
  shows "(\<exists>ds. subseq ds (frame_times reads) \<and>
               writer_opens evs = map2 chunk_filename ds [0 ..< length ds]) \<and>
         list_all (keyed bucket chunk_key) evs \<and>
         s3_objects w' = s3_objects w @ map (\<lambda>p. (bucket, chunk_key p)) (stored_files evs) \<and>
         list_all (keyed bucket chunk_key) (fst (upload_to_s3 local_file client bucket w)) \<and>
         subseq (recorded_files cevs)
           (map (\<lambda>e. capture_filepath storage_path (c_now e)) cenvs) \<and>
         subseq (queue_puts cevs) (recorded_files cevs) \<and>
         list_all (keyed (s3_bucket cfg) (s3_key_of (s3_prefix cfg))) uevs \<and>
         s3_objects (wld u') =
           s3_objects uw @
           map (\<lambda>p. (s3_bucket cfg, s3_key_of (s3_prefix cfg) p)) (stored_files uevs) \<and>
         chunk_filename d n =
           ''/tmp/video_chunks/chunk_'' @ strftime d @ ''_'' @ zfill 4 (decimal n) @ ''.mp4'' \<and>
         chunk_key (chunk_filename d n) =
           ''video_chunks/chunk_'' @ strftime d @ ''_'' @ zfill 4 (decimal n) @ ''.mp4'' \<and>
         path_name (capture_filepath storage_path d) = ''video_'' @ strftime d @ ''.h264'' \<and>
         s3_key_of pre (capture_filepath storage_path d) =
           pre @ ''video_'' @ strftime d @ ''.h264'' \<and>
         (storage_path \<noteq> [] \<and> storage_path \<noteq> ''.'' \<and> last storage_path \<noteq> CHR ''/'' \<longrightarrow>
            capture_filepath storage_path d =
              storage_path @ ''/video_'' @ strftime d @ ''.h264'') \<and>
         (valid_datetime d \<longrightarrow> timestamp_shaped (strftime d)) \<and>
         4 \<le> length (zfill 4 (decimal n)) \<and> list_all is_digit (zfill 4 (decimal n))"
proof -
  have f1: "chunk_filename d n =
      ''/tmp/video_chunks/chunk_'' @ strftime d @ ''_'' @ zfill 4 (decimal n) @ ''.mp4''"
    by (simp add: chunk_filename_def path_join_def temp_dir_def)
  have f2: "storage_path \<noteq> [] \<and> storage_path \<noteq> ''.'' \<and> last storage_path \<noteq> CHR ''/'' \<longrightarrow>
      capture_filepath storage_path d = storage_path @ ''/video_'' @ strftime d @ ''.h264''"
    by (simp add: capture_filepath_def path_join_def VIDEO_FORMAT_def)
  have k1: "chunk_key (chunk_filename d n) =
      ''video_chunks/chunk_'' @ strftime d @ ''_'' @ zfill 4 (decimal n) @ ''.mp4''"
    unfolding chunk_key_def path_name_chunk_filename by simp
  have k2: "s3_key_of pre (capture_filepath storage_path d) =
      pre @ ''video_'' @ strftime d @ ''.h264''"
    unfolding s3_key_of_def path_name_capture_filepath by simp
  have ts: "valid_datetime d \<longrightarrow> timestamp_shaped (strftime d)"
    using strftime_shape by blast
  note sv = save_names[OF assms(1)] save_keys[OF assms(1)]
  note cp = capture_video_loop_recorded[OF assms(2)]
  note up = s3_upload_loop_keys[OF assms(3)]
  note u1 = upload_to_s3_keys[of bucket local_file client w]
  note sq = zfill_length_ge[of 4 "decimal n"] zfill_digits[OF decimal_digits, of 4 n]
  note pn = path_name_capture_filepath[of storage_path d]
  from sv cp up u1 f1 k1 pn k2 f2 ts sq show ?thesis by blast
qed

theorem chunk_names_and_keys_witness:
  "valid_datetime noon \<and> timestamp_shaped (strftime noon) \<and>
   chunk_filename noon 7 = ''/tmp/video_chunks/chunk_20240102_120000_0007.mp4'' \<and>
   chunk_key (chunk_filename noon 7) = ''video_chunks/chunk_20240102_120000_0007.mp4'' \<and>
   capture_filepath ''videos'' noon = ''videos/video_20240102_120000.h264'' \<and>
   s3_key_of ''pi_videos/'' (capture_filepath ''videos'' noon) =
     ''pi_videos/video_20240102_120000.h264'' \<and>
   writer_opens (fst (save True 30 (\<lambda>p. None) ''bucket'' [Frame noon, NoFrame] empty_world)) =
     [''/tmp/video_chunks/chunk_20240102_120000_0000.mp4''] \<and>
   s3_objects (fst (snd (save True 30 (\<lambda>p. None) ''bucket'' [Frame noon, NoFrame] empty_world))) =
     [(''bucket'', ''video_chunks/chunk_20240102_120000_0000.mp4'')] \<and>
   recorded_files
     (fst (capture_video_loop ''videos'' None [steady, flag_cleared] empty_world)) =
     [''videos/video_20240102_120000.h264''] \<and>
   s3_objects (wld (fst (snd (s3_upload_loop pi_cfg 0
       [arrival_at 400 ''videos/a.h264'', flag_cleared_u] empty_world)))) =
     [(''bucket'', ''pi_videos/a.h264'')]"
proof -
  note t = chunk_names_and_keys[OF save_one_frame capture_one_chunk upload_one_arrival,
      of "''/tmp/video_chunks/c.mp4''" noon 7 "''pi_videos/''"]
  have v: "''videos'' \<noteq> [] \<and> ''videos'' \<noteq> ''.'' \<and> last ''videos'' \<noteq> CHR ''/''" by simp
  from t valid_noon have 1: "timestamp_shaped (strftime noon)" by blast
  from t have "chunk_filename noon 7 =
      ''/tmp/video_chunks/chunk_'' @ strftime noon @ ''_'' @ zfill 4 (decimal 7) @ ''.mp4''"
    by blast
  then have 2: "chunk_filename noon 7 = ''/tmp/video_chunks/chunk_20240102_120000_0007.mp4''"
    unfolding strftime_noon seq_seven by simp
  from t have "chunk_key (chunk_filename noon 7) =
      ''video_chunks/chunk_'' @ strftime noon @ ''_'' @ zfill 4 (decimal 7) @ ''.mp4''"
    by blast
  then have 3: "chunk_key (chunk_filename noon 7) =
      ''video_chunks/chunk_20240102_120000_0007.mp4''"
    unfolding strftime_noon seq_seven by simp
  from t v have "capture_filepath ''videos'' noon =
      ''videos'' @ ''/video_'' @ strftime noon @ ''.h264''"
    by blast
  then have 4: "capture_filepath ''videos'' noon = ''videos/video_20240102_120000.h264''"
    unfolding strftime_noon by simp
  from t have "s3_key_of ''pi_videos/'' (capture_filepath ''videos'' noon) =
      ''pi_videos/'' @ ''video_'' @ strftime noon @ ''.h264''"
    by blast
  then have 5: "s3_key_of ''pi_videos/'' (capture_filepath ''videos'' noon) =
      ''pi_videos/video_20240102_120000.h264''"
    unfolding strftime_noon by simp
  have 6: "writer_opens (fst (save True 30 (\<lambda>p. None) ''bucket'' [Frame noon, NoFrame]
      empty_world)) = [''/tmp/video_chunks/chunk_20240102_120000_0000.mp4'']"
    by (simp add: save_one_frame writer_opens_simps)
  have 7: "s3_objects (fst (snd (save True 30 (\<lambda>p. None) ''bucket'' [Frame noon, NoFrame]
      empty_world))) = [(''bucket'', ''video_chunks/chunk_20240102_120000_0000.mp4'')]"
    by (simp add: save_one_frame)
  have 8: "recorded_files
      (fst (capture_video_loop ''videos'' None [steady, flag_cleared] empty_world)) =
      [''videos/video_20240102_120000.h264'']"
    by (simp add: capture_one_chunk recorded_files_simps)
  have 9: "s3_objects (wld (fst (snd (s3_upload_loop pi_cfg 0
       [arrival_at 400 ''videos/a.h264'', flag_cleared_u] empty_world)))) =
     [(''bucket'', ''pi_videos/a.h264'')]"
    by (simp add: upload_one_arrival)
  from valid_noon 1 2 3 4 5 6 7 8 9 show ?thesis by blast
qed

text \<open>
  Claim C9, as the specification states it, fails on the camera's chunks: the file of the
  chunk started at noon on 2 January 2024 is \<^verbatim>\<open>video_20240102_120000.h264\<close>, which does
  not begin with \<^verbatim>\<open>chunk_\<close> and has no sequence number.
\<close>

theorem camera_chunk_name_counterexample:
  "path_name (capture_filepath ''videos'' noon) = ''video_20240102_120000.h264'' \<and>
   \<not> prefix ''chunk_'' (path_name (capture_filepath ''videos'' noon))"
  by (simp add: capture_filepath_def path_join_def path_name_def VIDEO_FORMAT_def strftime_noon)

end
